theory Spec2Isabelle
  imports Main "HOL-Library.Word"
begin

unbundle bit_operations_syntax

section \<open>Values of the host language\<close>

text \<open>
  A JavaScript string is a sequence of 16-bit code units. String literals of the
  source are written \<open>js ''...''\<close>; a single code unit is written as its number
  (\<open>0x22\<close> is the double quote, \<open>0x5C\<close> the backslash).
\<close>

type_synonym jstring = "16 word list"

abbreviation js :: "string \<Rightarrow> jstring" where
  "js s \<equiv> map of_char s"

text \<open>
  The values the console stores and serialises are JSON values: \<open>null\<close>, booleans,
  numbers, strings, arrays and plain objects. An object is the list of its own
  properties in property order. Numbers are the integers that a double holds
  exactly (below \<open>2^53\<close> in absolute value); fractions, exponents and negative zero
  are floating point and are not values of this model. \<open>undefined\<close> is \<open>None\<close> of
  \<open>json option\<close>.
\<close>

datatype json =
    JNull
  | JBool bool
  | JNum int
  | JStr jstring
  | JArr "json list"
  | JObj "(jstring \<times> json) list"

type_synonym jsval = "json option"

type_synonym props = "(jstring \<times> json) list"

text \<open>
  The exceptions the script can meet. \<open>Unmodelled\<close> is not an exception: it marks
  an input that has a construct outside this model (a number token that is not an
  exactly representable integer), where the model says nothing about what the
  script does. No \<open>catch\<close> of the model catches it.
\<close>

datatype error = SyntaxError | TypeError | URIError | Unmodelled

text \<open>ToBoolean, as \<open>||\<close>, \<open>&&\<close>, \<open>!!\<close> and \<open>if\<close> apply it.\<close>

fun truthy :: "jsval \<Rightarrow> bool" where
  "truthy None = False"
| "truthy (Some JNull) = False"
| "truthy (Some (JBool b)) = b"
| "truthy (Some (JNum n)) = (n \<noteq> 0)"
| "truthy (Some (JStr s)) = (s \<noteq> [])"
| "truthy (Some (JArr _)) = True"
| "truthy (Some (JObj _)) = True"

section \<open>JSON.stringify\<close>

text \<open>
  \<open>JSON.stringify(value)\<close> with no replacer and no indentation, as ECMA-262
  defines it (SerializeJSONProperty, QuoteJSONString, Number::toString on an
  integer). A string is quoted code point by code point: the seven characters with a
  short escape, then \<open>\uXXXX\<close> with lower-case digits for the other control
  characters and for a surrogate that is not part of a pair, everything else as it is.
\<close>

fun dec :: "nat \<Rightarrow> jstring" where
  "dec n = (if n < 10 then [of_nat (0x30 + n)] else dec (n div 10) @ [of_nat (0x30 + n mod 10)])"
declare dec.simps [simp del]

definition Number_toString :: "int \<Rightarrow> jstring" where
  "Number_toString n = (if n < 0 then 0x2D # dec (nat (- n)) else dec (nat n))"

definition hexdigit :: "nat \<Rightarrow> 16 word" where
  "hexdigit d = of_nat (if d < 10 then 0x30 + d else 0x57 + d)"

definition UnicodeEscape :: "16 word \<Rightarrow> jstring" where
  "UnicodeEscape c =
     (let n = unat c
      in [0x5C, 0x75, hexdigit (n div 4096), hexdigit (n div 256 mod 16),
          hexdigit (n div 16 mod 16), hexdigit (n mod 16)])"

definition is_lead :: "16 word \<Rightarrow> bool" where
  "is_lead c = (0xD800 \<le> c \<and> c \<le> 0xDBFF)"
definition is_trail :: "16 word \<Rightarrow> bool" where
  "is_trail c = (0xDC00 \<le> c \<and> c \<le> 0xDFFF)"

fun quote_units :: "jstring \<Rightarrow> jstring" where
  "quote_units [] = []"
| "quote_units (c # cs) =
    (if c = 0x08 then [0x5C, 0x62] @ quote_units cs
     else if c = 0x09 then [0x5C, 0x74] @ quote_units cs
     else if c = 0x0A then [0x5C, 0x6E] @ quote_units cs
     else if c = 0x0C then [0x5C, 0x66] @ quote_units cs
     else if c = 0x0D then [0x5C, 0x72] @ quote_units cs
     else if c = 0x22 then [0x5C, 0x22] @ quote_units cs
     else if c = 0x5C then [0x5C, 0x5C] @ quote_units cs
     else if c < 0x20 then UnicodeEscape c @ quote_units cs
     else if is_lead c then
       (case cs of
          [] \<Rightarrow> UnicodeEscape c
        | d # ds \<Rightarrow> if is_trail d then c # d # quote_units ds
                    else UnicodeEscape c @ quote_units cs)
     else if is_trail c then UnicodeEscape c @ quote_units cs
     else c # quote_units cs)"

definition QuoteJSONString :: "jstring \<Rightarrow> jstring" where
  "QuoteJSONString s = 0x22 # quote_units s @ [0x22]"

fun join_comma :: "jstring list \<Rightarrow> jstring" where
  "join_comma [] = []"
| "join_comma [x] = x"
| "join_comma (x # y # ys) = x @ 0x2C # join_comma (y # ys)"

fun JSON_stringify :: "json \<Rightarrow> jstring" where
  "JSON_stringify JNull = js ''null''"
| "JSON_stringify (JBool b) = (if b then js ''true'' else js ''false'')"
| "JSON_stringify (JNum n) = Number_toString n"
| "JSON_stringify (JStr s) = QuoteJSONString s"
| "JSON_stringify (JArr vs) = 0x5B # join_comma (map JSON_stringify vs) @ [0x5D]"
| "JSON_stringify (JObj kvs) =
     0x7B # join_comma (map (\<lambda>(k, v). QuoteJSONString k @ 0x3A # JSON_stringify v) kvs) @ [0x7D]"

section \<open>JSON.parse\<close>

text \<open>
  \<open>JSON.parse(text)\<close> with no reviver: the text is split into the tokens of the JSON
  grammar, and the tokens are read by a pushdown automaton that builds the value.
  White space is tab, line feed, carriage return and space. A string token holds any
  code unit from \<open>0x20\<close> on but the quote and the backslash, and the escapes
  \<open>\" \\ \/ \b \f \n \r \t \uXXXX\<close>. A text that is not JSON raises SyntaxError.
\<close>

datatype token =
  TLBrace | TRBrace | TLBracket | TRBracket | TColon | TComma
  | TNull | TTrue | TFalse | TNum int | TStr jstring

definition is_digit :: "16 word \<Rightarrow> bool" where
  "is_digit c = (0x30 \<le> c \<and> c \<le> 0x39)"

definition is_ws :: "16 word \<Rightarrow> bool" where
  "is_ws c = (c = 0x09 \<or> c = 0x0A \<or> c = 0x0D \<or> c = 0x20)"

definition hexval :: "16 word \<Rightarrow> nat option" where
  "hexval c =
     (if 0x30 \<le> c \<and> c \<le> 0x39 then Some (unat c - 0x30)
      else if 0x41 \<le> c \<and> c \<le> 0x46 then Some (unat c - 0x37)
      else if 0x61 \<le> c \<and> c \<le> 0x66 then Some (unat c - 0x57)
      else None)"

fun hex4 :: "jstring \<Rightarrow> (16 word \<times> jstring) option" where
  "hex4 (a # b # c # d # r) =
     (case (hexval a, hexval b, hexval c, hexval d) of
        (Some x, Some y, Some z, Some w) \<Rightarrow>
          Some (of_nat (4096 * x + 256 * y + 16 * z + w), r)
      | _ \<Rightarrow> None)"
| "hex4 _ = None"

lemma hex4_length: "hex4 es = Some (u, r) \<Longrightarrow> length r < length es"
  by (induction es rule: hex4.induct) (auto split: option.splits)

definition put :: "16 word \<Rightarrow> (jstring \<times> jstring) option \<Rightarrow> (jstring \<times> jstring) option" where
  "put c r = (case r of None \<Rightarrow> None | Some (s, rest) \<Rightarrow> Some (c # s, rest))"

function (sequential) lex_string :: "jstring \<Rightarrow> (jstring \<times> jstring) option" where
  "lex_string [] = None"
| "lex_string (c # cs) =
    (if c = 0x22 then Some ([], cs)
     else if c = 0x5C then
       (case cs of
          [] \<Rightarrow> None
        | e # es \<Rightarrow>
            if e = 0x22 then put 0x22 (lex_string es)
            else if e = 0x5C then put 0x5C (lex_string es)
            else if e = 0x2F then put 0x2F (lex_string es)
            else if e = 0x62 then put 0x08 (lex_string es)
            else if e = 0x66 then put 0x0C (lex_string es)
            else if e = 0x6E then put 0x0A (lex_string es)
            else if e = 0x72 then put 0x0D (lex_string es)
            else if e = 0x74 then put 0x09 (lex_string es)
            else if e = 0x75 then
              (case hex4 es of None \<Rightarrow> None | Some (u, r) \<Rightarrow> put u (lex_string r))
            else None)
     else if c < 0x20 then None
     else put c (lex_string cs))"
  by pat_completeness auto
termination
  by (relation "measure length") (auto dest: hex4_length)

lemma put_SomeD: "put c x = Some (s, r) \<Longrightarrow> \<exists>s'. x = Some (s', r)"
  by (auto simp: put_def split: option.splits)

lemma lex_string_length: "lex_string cs = Some (s, r) \<Longrightarrow> length r < length cs"
proof (induction cs arbitrary: s r rule: length_induct)
  case (1 cs)
  have IH: "\<And>ys s' r'. length ys < length cs \<Longrightarrow> lex_string ys = Some (s', r') \<Longrightarrow> length r' < length ys"
    using "1.IH" by blast
  show ?case
  proof (cases cs)
    case Nil
    with "1.prems" show ?thesis by simp
  next
    case (Cons c cs')
    note c = Cons
    show ?thesis
    proof (cases "c = 0x22")
      case True
      with "1.prems" c show ?thesis by simp
    next
      case nq: False
      show ?thesis
      proof (cases "c = 0x5C")
        case False
        with nq "1.prems" c obtain s' where "lex_string cs' = Some (s', r)"
          by (auto split: if_splits dest: put_SomeD)
        with IH [of cs' s' r] c show ?thesis by simp
      next
        case True
        show ?thesis
        proof (cases cs')
          case Nil
          with True nq "1.prems" c show ?thesis by simp
        next
          case (Cons e es)
          show ?thesis
          proof (cases "e = 0x75")
            case False
            with True nq "1.prems" c Cons obtain s' where "lex_string es = Some (s', r)"
              by (auto split: if_splits dest: put_SomeD)
            with IH [of es s' r] c Cons show ?thesis by simp
          next
            case u: True
            with True nq "1.prems" c Cons obtain w r0 s' where
              h: "hex4 es = Some (w, r0)" and l: "lex_string r0 = Some (s', r)"
              by (auto split: if_splits option.splits dest: put_SomeD)
            from h have "length r0 < length es" by (rule hex4_length)
            with IH [of r0 s' r] l c Cons show ?thesis by simp
          qed
        qed
      qed
    qed
  qed
qed

definition digits_value :: "jstring \<Rightarrow> nat" where
  "digits_value ds = foldl (\<lambda>n d. 10 * n + (unat d - 0x30)) 0 ds"

definition lex_number :: "bool \<Rightarrow> jstring \<Rightarrow> error + (int \<times> jstring)" where
  "lex_number neg cs =
     (let ds = takeWhile is_digit cs; r = dropWhile is_digit cs; n = digits_value ds
      in if ds = [] then Inl SyntaxError
         else if 1 < length ds \<and> take 1 ds = [0x30] then Inl SyntaxError
         else if take 1 r = [0x2E] \<or> take 1 r = [0x65] \<or> take 1 r = [0x45] then Inl Unmodelled
         else if 2 ^ 53 \<le> n \<or> (neg \<and> n = 0) then Inl Unmodelled
         else Inr (if neg then - int n else int n, r))"

lemma lex_number_length: "lex_number neg cs = Inr (n, r) \<Longrightarrow> length r < length cs"
proof -
  assume a: "lex_number neg cs = Inr (n, r)"
  then have "takeWhile is_digit cs \<noteq> []" and "r = dropWhile is_digit cs"
    by (auto simp: lex_number_def Let_def split: if_splits)
  moreover have "length (takeWhile is_digit cs) + length (dropWhile is_digit cs) = length cs"
    by (metis length_append takeWhile_dropWhile_id)
  ultimately show ?thesis by (cases "takeWhile is_digit cs") auto
qed

definition tok :: "token \<Rightarrow> error + token list \<Rightarrow> error + token list" where
  "tok t r = (case r of Inl e \<Rightarrow> Inl e | Inr ts \<Rightarrow> Inr (t # ts))"

function (sequential) tokenize :: "jstring \<Rightarrow> error + token list" where
  "tokenize [] = Inr []"
| "tokenize (c # cs) =
    (if is_ws c then tokenize cs
     else if c = 0x7B then tok TLBrace (tokenize cs)
     else if c = 0x7D then tok TRBrace (tokenize cs)
     else if c = 0x5B then tok TLBracket (tokenize cs)
     else if c = 0x5D then tok TRBracket (tokenize cs)
     else if c = 0x3A then tok TColon (tokenize cs)
     else if c = 0x2C then tok TComma (tokenize cs)
     else if c = 0x22 then
       (case lex_string cs of
          None \<Rightarrow> Inl SyntaxError
        | Some (s, r) \<Rightarrow> tok (TStr s) (tokenize r))
     else if c = 0x2D then
       (case lex_number True cs of
          Inl e \<Rightarrow> Inl e
        | Inr (n, r) \<Rightarrow> tok (TNum n) (tokenize r))
     else if is_digit c then
       (case lex_number False (c # cs) of
          Inl e \<Rightarrow> Inl e
        | Inr (n, r) \<Rightarrow> tok (TNum n) (tokenize r))
     else if take 4 (c # cs) = js ''null'' then tok TNull (tokenize (drop 3 cs))
     else if take 4 (c # cs) = js ''true'' then tok TTrue (tokenize (drop 3 cs))
     else if take 5 (c # cs) = js ''false'' then tok TFalse (tokenize (drop 4 cs))
     else Inl SyntaxError)"
  by pat_completeness auto
termination
  by (relation "measure length")
     (auto dest: lex_string_length lex_number_length)

text \<open>
  Property creation on an ordinary object (CreateDataProperty, and an assignment to
  a key the prototype chain has no setter for). An existing key keeps its place and
  takes the new value. A new key that is an array index (the canonical decimal form
  of a number below \<open>2^32 - 1\<close>) goes among the index keys, in ascending order,
  before the other keys; any other new key goes last. This is the order in which \<open>JSON.stringify\<close> and
  \<open>Object.keys\<close> see the properties.
\<close>

definition array_index :: "jstring \<Rightarrow> nat option" where
  "array_index k =
     (if k \<noteq> [] \<and> list_all is_digit k \<and> (k = [0x30] \<or> take 1 k \<noteq> [0x30])
         \<and> digits_value k < 2 ^ 32 - 1
      then Some (digits_value k) else None)"

fun insert_index :: "nat \<Rightarrow> jstring \<times> json \<Rightarrow> (jstring \<times> json) list \<Rightarrow> (jstring \<times> json) list" where
  "insert_index n p [] = [p]"
| "insert_index n p (q # qs) =
     (case array_index (fst q) of
        Some m \<Rightarrow> if m \<le> n then q # insert_index n p qs else p # q # qs
      | None \<Rightarrow> p # q # qs)"

definition obj_define :: "jstring \<Rightarrow> json \<Rightarrow> (jstring \<times> json) list \<Rightarrow> (jstring \<times> json) list" where
  "obj_define k v kvs =
     (if k \<in> set (map fst kvs)
      then map (\<lambda>(k', v'). if k' = k then (k', v) else (k', v')) kvs
      else case array_index k of
             None \<Rightarrow> kvs @ [(k, v)]
           | Some n \<Rightarrow> insert_index n (k, v) kvs)"

text \<open>
  The automaton. Its stack holds one frame for each array or object that is open:
  the elements read so far, or the members read so far and the key whose value is
  being read. A duplicate key takes the last value, as \<open>obj_define\<close> has it.
\<close>

datatype frame = InArr "json list" | InObj "(jstring \<times> json) list" jstring

datatype mode =
  Val | ValOrClose | KeyOrClose | Key "(jstring \<times> json) list"
  | Colon "(jstring \<times> json) list" jstring | After json

fun start_value :: "token \<Rightarrow> frame list \<Rightarrow> (mode \<times> frame list) option" where
  "start_value TLBracket st = Some (ValOrClose, InArr [] # st)"
| "start_value TLBrace st = Some (KeyOrClose, st)"
| "start_value TNull st = Some (After JNull, st)"
| "start_value TTrue st = Some (After (JBool True), st)"
| "start_value TFalse st = Some (After (JBool False), st)"
| "start_value (TNum n) st = Some (After (JNum n), st)"
| "start_value (TStr s) st = Some (After (JStr s), st)"
| "start_value _ st = None"

fun step :: "token \<Rightarrow> mode \<times> frame list \<Rightarrow> (mode \<times> frame list) option" where
  "step t (Val, st) = start_value t st"
| "step t (ValOrClose, st) =
     (if t = TRBracket
      then (case st of InArr [] # st' \<Rightarrow> Some (After (JArr []), st') | _ \<Rightarrow> None)
      else start_value t st)"
| "step t (KeyOrClose, st) =
     (case t of
        TRBrace \<Rightarrow> Some (After (JObj []), st)
      | TStr k \<Rightarrow> Some (Colon [] k, st)
      | _ \<Rightarrow> None)"
| "step t (Key kvs, st) = (case t of TStr k \<Rightarrow> Some (Colon kvs k, st) | _ \<Rightarrow> None)"
| "step t (Colon kvs k, st) = (case t of TColon \<Rightarrow> Some (Val, InObj kvs k # st) | _ \<Rightarrow> None)"
| "step t (After v, []) = None"
| "step t (After v, InArr els # st) =
     (case t of
        TComma \<Rightarrow> Some (Val, InArr (els @ [v]) # st)
      | TRBracket \<Rightarrow> Some (After (JArr (els @ [v])), st)
      | _ \<Rightarrow> None)"
| "step t (After v, InObj kvs k # st) =
     (case t of
        TComma \<Rightarrow> Some (Key (obj_define k v kvs), st)
      | TRBrace \<Rightarrow> Some (After (JObj (obj_define k v kvs)), st)
      | _ \<Rightarrow> None)"

fun run :: "token list \<Rightarrow> mode \<times> frame list \<Rightarrow> (mode \<times> frame list) option" where
  "run [] c = Some c"
| "run (t # ts) c = (case step t c of None \<Rightarrow> None | Some c' \<Rightarrow> run ts c')"

definition JSON_parse :: "jstring \<Rightarrow> error + json" where
  "JSON_parse text =
     (case tokenize text of
        Inl e \<Rightarrow> Inl e
      | Inr ts \<Rightarrow>
          (case run ts (Val, []) of
             Some (After v, []) \<Rightarrow> Inr v
           | _ \<Rightarrow> Inl SyntaxError))"

text \<open>
  The values that are values of a running script: the keys of every object are
  distinct and stand in property order, and every number is an integer a double
  holds exactly.
\<close>

definition key_before :: "jstring \<Rightarrow> jstring \<Rightarrow> bool" where
  "key_before a b =
     (case array_index a of
        Some m \<Rightarrow> (case array_index b of Some n \<Rightarrow> m \<le> n | None \<Rightarrow> True)
      | None \<Rightarrow> array_index b = None)"

definition wf_props :: "(jstring \<times> json) list \<Rightarrow> bool" where
  "wf_props kvs = (distinct (map fst kvs) \<and> sorted_wrt key_before (map fst kvs))"

fun wf_json :: "json \<Rightarrow> bool" where
  "wf_json (JNum n) = (\<bar>n\<bar> < 2 ^ 53)"
| "wf_json (JArr vs) = list_all wf_json vs"
| "wf_json (JObj kvs) = (wf_props kvs \<and> list_all (\<lambda>(k, v). wf_json v) kvs)"
| "wf_json _ = True"

section \<open>String functions of the host\<close>

text \<open>
  \<open>String.prototype.split\<close> with a separator of one code unit,
  \<open>String.prototype.trim\<close> (white space and line terminators of ECMA-262) and
  \<open>decodeURIComponent\<close> (Decode with an empty reserved set: every \<open>%XX\<close> is
  decoded, a sequence of octets must be well-formed UTF-8, and the code point is
  written in UTF-16; anything else raises URIError).
\<close>

fun split_on :: "16 word \<Rightarrow> jstring \<Rightarrow> jstring list" where
  "split_on sep [] = [[]]"
| "split_on sep (c # cs) =
     (if c = sep then [] # split_on sep cs
      else (case split_on sep cs of
              [] \<Rightarrow> [[c]]
            | x # xs \<Rightarrow> (c # x) # xs))"

definition is_space :: "16 word \<Rightarrow> bool" where
  "is_space c =
     (c = 0x09 \<or> c = 0x0A \<or> c = 0x0B \<or> c = 0x0C \<or> c = 0x0D \<or> c = 0x20 \<or> c = 0xA0
      \<or> c = 0x1680 \<or> (0x2000 \<le> c \<and> c \<le> 0x200A) \<or> c = 0x2028 \<or> c = 0x2029
      \<or> c = 0x202F \<or> c = 0x205F \<or> c = 0x3000 \<or> c = 0xFEFF)"

definition trim :: "jstring \<Rightarrow> jstring" where
  "trim s = rev (dropWhile is_space (rev (dropWhile is_space s)))"

definition hex2 :: "16 word \<Rightarrow> 16 word \<Rightarrow> nat option" where
  "hex2 a b =
     (case (hexval a, hexval b) of
        (Some x, Some y) \<Rightarrow> Some (16 * x + y)
      | _ \<Rightarrow> None)"

fun percent_octets :: "nat \<Rightarrow> jstring \<Rightarrow> (nat list \<times> jstring) option" where
  "percent_octets n cs =
     (if n = 0 then Some ([], cs)
      else (case cs of
              p # a # b # r \<Rightarrow>
                if p = 0x25
                then (case hex2 a b of
                        None \<Rightarrow> None
                      | Some x \<Rightarrow>
                          (case percent_octets (n - 1) r of
                             None \<Rightarrow> None
                           | Some (xs, r') \<Rightarrow> Some (x # xs, r')))
                else None
            | _ \<Rightarrow> None))"

declare percent_octets.simps [simp del]

definition utf8_length :: "nat \<Rightarrow> nat option" where
  "utf8_length b =
     (if b < 0x80 then Some 1
      else if b < 0xC0 then None
      else if b < 0xE0 then Some 2
      else if b < 0xF0 then Some 3
      else if b < 0xF8 then Some 4
      else None)"

definition continuation :: "nat \<Rightarrow> bool" where
  "continuation b = (0x80 \<le> b \<and> b < 0xC0)"

fun utf8_value :: "nat list \<Rightarrow> nat option" where
  "utf8_value [a] = (if a < 0x80 then Some a else None)"
| "utf8_value [a, b] =
     (let v = (a - 0xC0) * 64 + (b - 0x80)
      in if continuation b \<and> 0x80 \<le> v then Some v else None)"
| "utf8_value [a, b, c] =
     (let v = (a - 0xE0) * 4096 + (b - 0x80) * 64 + (c - 0x80)
      in if continuation b \<and> continuation c \<and> 0x800 \<le> v \<and> \<not> (0xD800 \<le> v \<and> v \<le> 0xDFFF)
         then Some v else None)"
| "utf8_value [a, b, c, d] =
     (let v = (a - 0xF0) * 262144 + (b - 0x80) * 4096 + (c - 0x80) * 64 + (d - 0x80)
      in if continuation b \<and> continuation c \<and> continuation d \<and> 0x10000 \<le> v \<and> v \<le> 0x10FFFF
         then Some v else None)"
| "utf8_value _ = None"

definition utf16_encode :: "nat \<Rightarrow> jstring" where
  "utf16_encode v =
     (if v < 0x10000 then [of_nat v]
      else [of_nat (0xD800 + (v - 0x10000) div 1024), of_nat (0xDC00 + (v - 0x10000) mod 1024)])"

lemma percent_octets_length: "percent_octets n cs = Some (xs, r) \<Longrightarrow> length r \<le> length cs"
proof (induction n arbitrary: cs xs r)
  case 0
  then show ?case
    by (simp add: percent_octets.simps)
next
  case (Suc n)
  from Suc.prems obtain p a b r0 x ys where "cs = p # a # b # r0"
    and "percent_octets n r0 = Some (ys, r)"
    by (subst (asm) percent_octets.simps) (auto split: if_splits option.splits list.splits)
  with Suc.IH [of r0 ys r] show ?case
    by simp
qed

definition emit :: "jstring \<Rightarrow> error + jstring \<Rightarrow> error + jstring" where
  "emit s r = (case r of Inl e \<Rightarrow> Inl e | Inr t \<Rightarrow> Inr (s @ t))"

function (sequential) decodeURIComponent :: "jstring \<Rightarrow> error + jstring" where
  "decodeURIComponent [] = Inr []"
| "decodeURIComponent (c # cs) =
     (if c \<noteq> 0x25 then emit [c] (decodeURIComponent cs)
      else (case cs of
              a # b # r \<Rightarrow>
                (case hex2 a b of
                   None \<Rightarrow> Inl URIError
                 | Some x \<Rightarrow>
                     (case utf8_length x of
                        None \<Rightarrow> Inl URIError
                      | Some n \<Rightarrow>
                          (case percent_octets (n - 1) r of
                             None \<Rightarrow> Inl URIError
                           | Some (xs, r') \<Rightarrow>
                               (case utf8_value (x # xs) of
                                  None \<Rightarrow> Inl URIError
                                | Some v \<Rightarrow> emit (utf16_encode v) (decodeURIComponent r')))))
            | _ \<Rightarrow> Inl URIError))"
  by pat_completeness auto
termination
  by (relation "measure length") (auto dest: percent_octets_length)

section \<open>Assignment to a property\<close>

text \<open>
  \<open>obj[k] = v\<close> on an object created by \<open>{}\<close>. The prototype of such an object
  has one property with a setter, \<open>__proto__\<close>: an assignment to that key calls the
  setter, which may change the prototype and never creates an own property. Every
  other key is created or updated as a data property.
\<close>

definition obj_set :: "jstring \<Rightarrow> json \<Rightarrow> props \<Rightarrow> props" where
  "obj_set k v kvs = (if k = js ''__proto__'' then kvs else obj_define k v kvs)"

text \<open>
  \<open>x.title\<close> and \<open>x.obj\<close> on a value that \<open>JSON.parse\<close> returned: reading a
  property of \<open>null\<close> raises TypeError; an object gives its own property, or
  \<open>undefined\<close>; numbers, booleans, strings and arrays have no property of these
  names.
\<close>

fun get_prop :: "json \<Rightarrow> jstring \<Rightarrow> error + jsval" where
  "get_prop JNull k = Inl TypeError"
| "get_prop (JObj kvs) k = Inr (map_of kvs k)"
| "get_prop _ k = Inr None"

section \<open>The state of the console\<close>

text \<open>
  The variables of the script's closure (\<open>visible\<close>, \<open>blockRedirects\<close>,
  \<open>stopSubmit\<close>, \<open>logEntries\<close>), what the claims observe of the three elements
  (\<open>devBox.style.display\<close>, the children of \<open>sidebar\<close> with the first child first,
  \<open>mainView.innerHTML\<close>) and the value stored in localStorage under the key
  \<open>__DEVBOX_LOGS\<close> (\<open>None\<close> when the key is absent). Writing to localStorage is
  taken to succeed: the quota is not modelled.

  A child of the sidebar is the value assigned to its \<open>textContent\<close> together with
  the payload its click handler shows.
\<close>

record item =
  label :: jsval
  detail :: jsval

record devbox =
  visible :: bool
  blockRedirects :: bool
  stopSubmit :: bool
  display :: jstring
  sidebar :: "item list"
  mainView :: jstring
  logEntries :: "json list"
  storage :: "jstring option"

section \<open>addLogEntry\<close>

text \<open>
  \<^verbatim>\<open>
  function addLogEntry(title, obj) {
    const id = Date.now().toString();
    const timestamp = new Date().toLocaleTimeString();
    const label = `[${timestamp}] ${title}`;
    const section = document.createElement("div");
    ...
    section.textContent = label;
    section.onclick = () => {
      mainView.innerHTML = Object.keys(obj).length
        ? JSON.stringify(obj, null, 2)
        : "";
    };
    sidebar.prepend(section);
    logEntries.push({ title: label, obj });
    localStorage.setItem("__DEVBOX_LOGS", JSON.stringify(logEntries));
  }
  \<close>
  The time of the call is a parameter: \<open>timestamp\<close> is what
  \<open>toLocaleTimeString()\<close> returns then.
\<close>

definition label_of :: "jstring \<Rightarrow> jstring \<Rightarrow> jstring" where
  "label_of timestamp title = js ''['' @ timestamp @ js ''] '' @ title"

definition entry :: "jstring \<Rightarrow> json \<Rightarrow> json" where
  "entry lbl obj = JObj [(js ''title'', JStr lbl), (js ''obj'', obj)]"

definition addLogEntry :: "jstring \<Rightarrow> jstring \<Rightarrow> json \<Rightarrow> devbox \<Rightarrow> devbox" where
  "addLogEntry timestamp title obj s =
     (let lbl = label_of timestamp title;
          entries = logEntries s @ [entry lbl obj]
      in s\<lparr>sidebar := \<lparr>label = Some (JStr lbl), detail = Some obj\<rparr> # sidebar s,
           logEntries := entries,
           storage := Some (JSON_stringify (JArr entries))\<rparr>)"

text \<open>A sequence of calls of \<open>addLogEntry\<close>, each with its time, title and payload.\<close>

fun log_all :: "(jstring \<times> jstring \<times> json) list \<Rightarrow> devbox \<Rightarrow> devbox" where
  "log_all [] s = s"
| "log_all ((timestamp, title, obj) # evs) s = log_all evs (addLogEntry timestamp title obj s)"

section \<open>Initialisation\<close>

text \<open>
  What the script reads from the page when it runs: the flag of the guard, the four
  globals a server-side collaborator may have set, \<open>document.cookie\<close>,
  \<open>window.location.pathname\<close>, the stored value of \<open>__DEVBOX_LOGS\<close>, and the
  time string at each of its calls of \<open>addLogEntry\<close>.
\<close>

record page =
  DEVBOX_LOADED :: bool
  DEVBOX_SESSION :: jsval
  DEVBOX_GET :: jsval
  DEVBOX_POST :: jsval
  DEVBOX_FILE :: jsval
  cookie :: jstring
  pathname :: jstring
  stored :: "jstring option"
  now :: "nat \<Rightarrow> jstring"

text \<open>
  \<^verbatim>\<open>
  let logEntries = JSON.parse(localStorage.getItem("__DEVBOX_LOGS") || "[]");
  \<close>
  \<open>getItem\<close> returns \<open>null\<close> for an absent key; \<open>null\<close> and the empty string are
  falsy.
\<close>

definition load :: "jstring option \<Rightarrow> error + json" where
  "load item =
     JSON_parse (case item of None \<Rightarrow> js ''[]'' | Some s \<Rightarrow> if s = [] then js ''[]'' else s)"

text \<open>
  \<^verbatim>\<open>
  logEntries.forEach((entry) => {
    const section = document.createElement("div");
    ...
    section.textContent = entry.title;
    section.onclick = () => {
      mainView.innerHTML = Object.keys(entry.obj).length
        ? JSON.stringify(entry.obj, null, 2)
        : "";
    };
    sidebar.appendChild(section);
  });
  \<close>
  Only an array has \<open>forEach\<close>: on any other value the call raises TypeError.
\<close>

fun restore :: "json list \<Rightarrow> item list \<Rightarrow> error + item list" where
  "restore [] items = Inr items"
| "restore (e # es) items =
     (case get_prop e (js ''title'') of
        Inl err \<Rightarrow> Inl err
      | Inr t \<Rightarrow>
          (case get_prop e (js ''obj'') of
             Inl err \<Rightarrow> Inl err
           | Inr obj \<Rightarrow> restore es (items @ [\<lparr>label = t, detail = obj\<rparr>])))"

definition forEach_restore :: "json \<Rightarrow> error + json list \<times> item list" where
  "forEach_restore parsed =
     (case parsed of
        JArr es \<Rightarrow>
          (case restore es [] of Inl err \<Rightarrow> Inl err | Inr items \<Rightarrow> Inr (es, items))
      | _ \<Rightarrow> Inl TypeError)"

text \<open>
  \<^verbatim>\<open>
  document.cookie.split(";").reduce((acc, c) => {
    let [k, v] = c.split("=");
    if (k && v) acc[k.trim()] = decodeURIComponent(v);
    return acc;
  }, {})
  \<close>
\<close>

definition cookie_entry :: "props \<Rightarrow> jstring \<Rightarrow> error + props" where
  "cookie_entry acc c =
     (case split_on 0x3D c of
        k # v # _ \<Rightarrow>
          if k \<noteq> [] \<and> v \<noteq> []
          then (case decodeURIComponent v of
                  Inl err \<Rightarrow> Inl err
                | Inr d \<Rightarrow> Inr (obj_set (trim k) (JStr d) acc))
          else Inr acc
      | _ \<Rightarrow> Inr acc)"

fun reduce_cookies :: "jstring list \<Rightarrow> props \<Rightarrow> error + props" where
  "reduce_cookies [] acc = Inr acc"
| "reduce_cookies (c # cs) acc =
     (case cookie_entry acc c of
        Inl err \<Rightarrow> Inl err
      | Inr acc' \<Rightarrow> reduce_cookies cs acc')"

definition cookies :: "jstring \<Rightarrow> error + json" where
  "cookies text =
     (case reduce_cookies (split_on 0x3B text) [] of
        Inl err \<Rightarrow> Inl err
      | Inr acc \<Rightarrow> Inr (JObj acc))"

text \<open>\<open>window.__DEVBOX_SESSION || {}\<close>\<close>

definition or_empty :: "jsval \<Rightarrow> json" where
  "or_empty x = (case x of None \<Rightarrow> JObj [] | Some v \<Rightarrow> if truthy (Some v) then v else JObj [])"

text \<open>
  The body of the script after its guard, in the order of the source. It starts
  with the variables \<open>visible = false\<close>, \<open>blockRedirects = false\<close>,
  \<open>stopSubmit = true\<close> and the panel with \<open>display:none\<close> (the state \<open>start\<close>);
  then come the load, the restored children of the sidebar, and
  \<^verbatim>\<open>
  addLogEntry("[SESSION]", window.__DEVBOX_SESSION || {});
  addLogEntry("[COOKIES]", document.cookie.split(";").reduce(...));
  addLogEntry("[PAGE]", { pathname: window.location.pathname });
  \<close>
  An exception ends the script where it is raised: the result is the exception.
\<close>

definition start :: "jstring option \<Rightarrow> devbox" where
  "start item =
     \<lparr>visible = False, blockRedirects = False, stopSubmit = True, display = js ''none'',
      sidebar = [], mainView = [], logEntries = [], storage = item\<rparr>"

definition initialise :: "page \<Rightarrow> error + devbox" where
  "initialise w =
     (case load (stored w) of
        Inl err \<Rightarrow> Inl err
      | Inr parsed \<Rightarrow>
          (case forEach_restore parsed of
             Inl err \<Rightarrow> Inl err
           | Inr (es, items) \<Rightarrow>
               (let s0 = (start (stored w))\<lparr>sidebar := items, logEntries := es\<rparr>;
                    s1 = addLogEntry (now w 0) (js ''[SESSION]'') (or_empty (DEVBOX_SESSION w)) s0
                in case cookies (cookie w) of
                     Inl err \<Rightarrow> Inl err
                   | Inr jar \<Rightarrow>
                       Inr (addLogEntry (now w 2) (js ''[PAGE]'')
                              (JObj [(js ''pathname'', JStr (pathname w))])
                              (addLogEntry (now w 1) (js ''[COOKIES]'') jar s1)))))"

text \<open>
  \<^verbatim>\<open>
  if (window.__DEVBOX_LOADED__) return;
  \<close>
  \<open>None\<close>: the script returned at its guard and did nothing.
\<close>

definition script :: "page \<Rightarrow> (error + devbox) option" where
  "script w = (if DEVBOX_LOADED w then None else Some (initialise w))"

section \<open>The submit listener\<close>

text \<open>
  \<^verbatim>\<open>
  (e) => {
    if (stopSubmit && e.target instanceof HTMLFormElement) {
      e.preventDefault();
      const fd = new FormData(e.target);
      const formData = {};
      for (const [k, v] of fd.entries()) {
        formData[k] = v;
      }
      addLogEntry(
        "[FORM SUBMIT] " + (e.target.action || window.location.pathname),
        formData
      );
    }
  }
  \<close>
  The target of the event is a form, given by the string its \<open>action\<close> property
  holds and the entry list \<open>new FormData\<close> builds from it, or something else. The
  values of the entries are strings (file inputs are left out). The listener returns
  the new state and whether it called \<open>preventDefault\<close>.
\<close>

datatype target = HTMLFormElement jstring "(jstring \<times> jstring) list" | OtherTarget

definition formData :: "(jstring \<times> jstring) list \<Rightarrow> props" where
  "formData fd = foldl (\<lambda>acc (k, v). obj_set k (JStr v) acc) [] fd"

definition submit_listener ::
  "jstring \<Rightarrow> jstring \<Rightarrow> target \<Rightarrow> devbox \<Rightarrow> devbox \<times> bool" where
  "submit_listener timestamp path tgt s =
     (case tgt of
        HTMLFormElement action fd \<Rightarrow>
          if stopSubmit s
          then (addLogEntry timestamp
                  (js ''[FORM SUBMIT] '' @ (if action \<noteq> [] then action else path))
                  (JObj (formData fd)) s,
                True)
          else (s, False)
      | OtherTarget \<Rightarrow> (s, False))"

section \<open>The wrapper of fetch\<close>

text \<open>
  \<^verbatim>\<open>
  window.fetch = async function (...args) {
    const [url, opts] = args;
    const method = opts?.method || "GET";
    const body = opts?.body;
    let entry = { method, url };
    if (body) {
      try {
        entry.body = typeof body === "string" ? JSON.parse(body) : body;
      } catch {
        entry.body = body;
      }
    }
    const resp = await origFetch.apply(this, args);
    const clone = resp.clone();
    let respText = "";
    try {
      respText = await clone.text();
    } catch {}
    try {
      entry.response = JSON.parse(respText);
    } catch {
      entry.response = respText;
    }
    addLogEntry(`[${method}] ${url}`, entry);
    return resp;
  };
  \<close>
  The URL is a string and the options, if given, hold a method (a string) and a
  body (a string, or another JSON value; host objects such as FormData are left
  out), each optional. The promise of the original fetch is fulfilled with a response
  or rejected with a reason; both are opaque. Reading the clone's text gives a string
  or fails. The field \<open>http_method\<close> is \<open>opts.method\<close>. The state is the one at the time of the call of \<open>addLogEntry\<close>.
\<close>

record fetch_opts =
  http_method :: "jstring option"
  body :: jsval

datatype ('r, 'x) settled = Fulfilled 'r | Rejected 'x

text \<open>\<open>try { x = JSON.parse(s) } catch { x = s }\<close>\<close>

definition parse_or_keep :: "jstring \<Rightarrow> error + json" where
  "parse_or_keep s =
     (case JSON_parse s of
        Inr v \<Rightarrow> Inr v
      | Inl Unmodelled \<Rightarrow> Inl Unmodelled
      | Inl _ \<Rightarrow> Inr (JStr s))"

definition request_method :: "fetch_opts option \<Rightarrow> jstring" where
  "request_method opts =
     (case opts of
        None \<Rightarrow> js ''GET''
      | Some given \<Rightarrow>
          (case http_method given of
             None \<Rightarrow> js ''GET''
           | Some m \<Rightarrow> if m \<noteq> [] then m else js ''GET''))"

text \<open>\<open>opts?.body\<close>\<close>

definition request_body :: "fetch_opts option \<Rightarrow> jsval" where
  "request_body opts = (case opts of None \<Rightarrow> None | Some given \<Rightarrow> body given)"

definition request_entry :: "jstring \<Rightarrow> fetch_opts option \<Rightarrow> error + props" where
  "request_entry url opts =
     (let b = request_body opts;
          e = [(js ''method'', JStr (request_method opts)), (js ''url'', JStr url)]
      in if truthy b
         then (case b of
                 Some (JStr text) \<Rightarrow>
                   (case parse_or_keep text of
                      Inl err \<Rightarrow> Inl err
                    | Inr v \<Rightarrow> Inr (obj_set (js ''body'') v e))
               | Some v \<Rightarrow> Inr (obj_set (js ''body'') v e)
               | None \<Rightarrow> Inr e)
         else Inr e)"

text \<open>\<open>respText\<close>: the text of the clone, or the empty string when reading it failed.\<close>

definition response_text :: "jstring option \<Rightarrow> jstring" where
  "response_text text = (case text of None \<Rightarrow> [] | Some t \<Rightarrow> t)"

definition fetch_wrapper ::
  "jstring \<Rightarrow> jstring \<Rightarrow> fetch_opts option \<Rightarrow> ('r, 'x) settled \<Rightarrow> jstring option
    \<Rightarrow> devbox \<Rightarrow> error + devbox \<times> ('r, 'x) settled" where
  "fetch_wrapper timestamp url opts original text s =
     (case request_entry url opts of
        Inl err \<Rightarrow> Inl err
      | Inr e \<Rightarrow>
          (case original of
             Rejected x \<Rightarrow> Inr (s, Rejected x)
           | Fulfilled resp \<Rightarrow>
               (case parse_or_keep (response_text text) of
                  Inl err \<Rightarrow> Inl err
                | Inr r \<Rightarrow>
                    Inr (addLogEntry timestamp
                           (js ''['' @ request_method opts @ js ''] '' @ url)
                           (JObj (obj_set (js ''response'') r e)) s,
                         Fulfilled resp))))"

section \<open>The control surface\<close>

text \<open>
  \<^verbatim>\<open>
  devBoxTab.onclick = () => {
    visible = !visible;
    devBox.style.display = visible ? "flex" : "none";
  };
  \<close>
\<close>

definition devBoxTab_onclick :: "devbox \<Rightarrow> devbox" where
  "devBoxTab_onclick s =
     (let v = \<not> visible s
      in s\<lparr>visible := v, display := (if v then js ''flex'' else js ''none'')\<rparr>)"

text \<open>
  \<^verbatim>\<open>
  clearBtn.onclick = () => {
    sidebar.innerHTML = "";
    mainView.innerHTML = "";
    localStorage.removeItem("__DEVBOX_LOGS");
  };
  \<close>
\<close>

definition clearBtn_onclick :: "devbox \<Rightarrow> devbox" where
  "clearBtn_onclick s = s\<lparr>sidebar := [], mainView := [], storage := None\<rparr>"

text \<open>The six functions of \<open>window.DevBox\<close>, in the order of the source.\<close>

definition DevBox_open :: "devbox \<Rightarrow> devbox" where
  "DevBox_open s = s\<lparr>visible := True, display := js ''flex''\<rparr>"

definition DevBox_close :: "devbox \<Rightarrow> devbox" where
  "DevBox_close s = s\<lparr>visible := False, display := js ''none''\<rparr>"

definition DevBox_toggle :: "devbox \<Rightarrow> devbox" where
  "DevBox_toggle s =
     (let v = \<not> visible s
      in s\<lparr>visible := v, display := (if v then js ''flex'' else js ''none'')\<rparr>)"

definition DevBox_isOpen :: "devbox \<Rightarrow> bool" where
  "DevBox_isOpen s = visible s"

definition DevBox_clear :: "devbox \<Rightarrow> devbox" where
  "DevBox_clear s = s\<lparr>sidebar := [], mainView := [], logEntries := [], storage := None\<rparr>"

definition DevBox_setBlockRedirects :: "jsval \<Rightarrow> devbox \<Rightarrow> devbox" where
  "DevBox_setBlockRedirects val s = s\<lparr>blockRedirects := truthy val\<rparr>"

text \<open>
  A call of the public API, and the state it leaves. \<open>isOpen\<close> only reads.
\<close>

datatype api =
    Open | Close | Toggle | IsOpen | Clear | SetBlockRedirects jsval

fun call :: "api \<Rightarrow> devbox \<Rightarrow> devbox" where
  "call Open s = DevBox_open s"
| "call Close s = DevBox_close s"
| "call Toggle s = DevBox_toggle s"
| "call IsOpen s = s"
| "call Clear s = DevBox_clear s"
| "call (SetBlockRedirects val) s = DevBox_setBlockRedirects val s"

text \<open>
  The operations that change what is shown: the three of the API, a click on the
  tab, and the keyboard shortcut, whose listener calls \<open>window.DevBox.toggle()\<close>.
\<close>

datatype control = COpen | CClose | CToggle | CTabClick | CShortcut

fun control_step :: "control \<Rightarrow> devbox \<Rightarrow> devbox" where
  "control_step COpen s = DevBox_open s"
| "control_step CClose s = DevBox_close s"
| "control_step CToggle s = DevBox_toggle s"
| "control_step CTabClick s = devBoxTab_onclick s"
| "control_step CShortcut s = DevBox_toggle s"

fun controls :: "control list \<Rightarrow> devbox \<Rightarrow> devbox" where
  "controls [] s = s"
| "controls (c # cs) s = controls cs (control_step c s)"

text \<open>
  The panel is displayed when its \<open>display\<close> is \<open>flex\<close>; the script starts with
  \<open>visible = false\<close> and \<open>display:none\<close> in the panel's style attribute.
\<close>

definition displayed :: "devbox \<Rightarrow> bool" where
  "displayed s = (display s = js ''flex'')"

definition agree :: "devbox \<Rightarrow> bool" where
  "agree s = (display s = (if visible s then js ''flex'' else js ''none''))"

section \<open>Evaluation\<close>

text \<open>
  The equations that evaluate the model on a concrete input, and a page with nothing
  injected, no cookie and nothing stored.
\<close>

lemmas eval_json =
  JSON_parse_def tok_def put_def obj_define_def obj_set_def array_index_def is_digit_def
  is_ws_def lex_number_def digits_value_def QuoteJSONString_def UnicodeEscape_def hexdigit_def
  is_lead_def is_trail_def Number_toString_def dec.simps hexval_def lex_string.simps
  quote_units.simps tokenize.simps Let_def

lemmas eval_host =
  percent_octets.simps emit_def hex2_def utf8_length_def continuation_def
  utf16_encode_def is_space_def trim_def

lemmas eval_script =
  load_def forEach_restore_def cookie_entry_def cookies_def or_empty_def initialise_def
  start_def addLogEntry_def label_of_def entry_def formData_def submit_listener_def
  parse_or_keep_def request_method_def request_body_def response_text_def request_entry_def
  fetch_wrapper_def

definition blank_page :: page where
  "blank_page =
     \<lparr>DEVBOX_LOADED = False, DEVBOX_SESSION = None, DEVBOX_GET = None, DEVBOX_POST = None,
      DEVBOX_FILE = None, cookie = [], pathname = js ''/'', stored = None,
      now = (\<lambda>_. js ''12:00:00'')\<rparr>"

section \<open>Predicates and inputs of the theorems\<close>

text \<open>
  The store is in sync with the memory when it holds the serialisation of the whole
  sequence in memory, or when nothing is stored and nothing is in memory (a first
  visit, or the state \<open>DevBox.clear\<close> leaves). \<open>static_entries\<close> are the three
  entries an initialisation logs. The other definitions are concrete inputs.
\<close>

definition in_sync :: "devbox \<Rightarrow> bool" where
  "in_sync s =
     (storage s = Some (JSON_stringify (JArr (logEntries s)))
      \<or> (storage s = None \<and> logEntries s = []))"





text \<open>
  The cookies that count, in the order of the cookie string: \<open>counted c\<close> is the pair
  of the trimmed key and the raw value that the reducer takes from the piece \<open>c\<close>, or
  nothing when the piece has no \<open>=\<close>, an empty key or an empty value.
  \<open>decoded v\<close> is the string value \<open>decodeURIComponent\<close> returns, if it returns.
\<close>

definition counted :: "jstring \<Rightarrow> (jstring \<times> jstring) list" where
  "counted c =
     (case split_on 0x3D c of
        k # v # _ \<Rightarrow> if k \<noteq> [] \<and> v \<noteq> [] then [(trim k, v)] else []
      | _ \<Rightarrow> [])"

definition cookie_pairs :: "jstring \<Rightarrow> (jstring \<times> jstring) list" where
  "cookie_pairs text = concat (map counted (split_on 0x3B text))"

definition decoded :: "jstring \<Rightarrow> jsval" where
  "decoded v = (case decodeURIComponent v of Inr d \<Rightarrow> Some (JStr d) | Inl _ \<Rightarrow> None)"

section \<open>Reading back what JSON.stringify wrote\<close>

text \<open>
  The tokens of a value, as \<open>JSON.stringify\<close> writes them. The proof that
  \<open>JSON.parse\<close> reads a well-formed value back goes through them: the text of a
  value splits into its tokens, and the automaton builds the value from its tokens.
\<close>

fun sep_tokens :: "token list list \<Rightarrow> token list" where
  "sep_tokens [] = []"
| "sep_tokens [x] = x"
| "sep_tokens (x # y # ys) = x @ TComma # sep_tokens (y # ys)"

fun tokens :: "json \<Rightarrow> token list" where
  "tokens JNull = [TNull]"
| "tokens (JBool b) = [if b then TTrue else TFalse]"
| "tokens (JNum n) = [TNum n]"
| "tokens (JStr s) = [TStr s]"
| "tokens (JArr vs) = TLBracket # sep_tokens (map tokens vs) @ [TRBracket]"
| "tokens (JObj kvs) =
     TLBrace # sep_tokens (map (\<lambda>(k, v). TStr k # TColon # tokens v) kvs) @ [TRBrace]"

subsection \<open>Strings\<close>

lemma unat_hexdigit: "d < 16 \<Longrightarrow> unat (hexdigit d) = (if d < 10 then 48 + d else 87 + d)"
  by (simp add: hexdigit_def unat_of_nat)

lemma hexval_hexdigit: "d < 16 \<Longrightarrow> hexval (hexdigit d) = Some d"
  by (simp add: hexval_def word_le_nat_alt unat_hexdigit)

lemma hex_digits_sum:
  "4096 * (n div 4096) + 256 * (n div 256 mod 16) + 16 * (n div 16 mod 16) + n mod 16 = (n::nat)"
proof -
  define a where "a = n div 16"
  define b where "b = a div 16"
  have 1: "n = 16 * a + n mod 16"
    by (simp add: a_def)
  have 2: "a = 16 * b + a mod 16"
    by (simp add: b_def)
  have 3: "n div 256 = b"
    by (simp add: a_def b_def div_mult2_eq)
  have 4: "n div 4096 = b div 16"
    by (simp add: a_def b_def div_mult2_eq)
  have 5: "b = 16 * (b div 16) + b mod 16"
    by simp
  have "4096 * (b div 16) + 256 * (b mod 16) + 16 * (a mod 16) + n mod 16 = n"
    using 1 2 5 by linarith
  then show ?thesis
    by (simp add: 3 4 a_def [symmetric])
qed

lemma hex4_UnicodeEscape: "hex4 (drop 2 (UnicodeEscape c) @ r) = Some (c, r)"
proof -
  have b: "unat c < 65536"
    using unsigned_less [of c, where ?'a = nat] by simp
  then have "unat c div 4096 < 16"
    by simp
  with b show ?thesis
    by (simp add: UnicodeEscape_def Let_def hexval_hexdigit hex_digits_sum)
qed

lemma lex_string_plain:
  "c \<noteq> 0x22 \<Longrightarrow> c \<noteq> 0x5C \<Longrightarrow> \<not> c < 0x20 \<Longrightarrow> lex_string (c # cs) = put c (lex_string cs)"
  by simp

lemma lex_string_close: "lex_string (0x22 # cs) = Some ([], cs)"
  by simp

lemma lex_string_escapes:
  "lex_string (0x5C # 0x22 # cs) = put 0x22 (lex_string cs)"
  "lex_string (0x5C # 0x5C # cs) = put 0x5C (lex_string cs)"
  "lex_string (0x5C # 0x62 # cs) = put 0x08 (lex_string cs)"
  "lex_string (0x5C # 0x66 # cs) = put 0x0C (lex_string cs)"
  "lex_string (0x5C # 0x6E # cs) = put 0x0A (lex_string cs)"
  "lex_string (0x5C # 0x72 # cs) = put 0x0D (lex_string cs)"
  "lex_string (0x5C # 0x74 # cs) = put 0x09 (lex_string cs)"
  by simp_all

lemma lex_string_UnicodeEscape:
  "lex_string (UnicodeEscape c @ cs) = put c (lex_string cs)"
proof -
  obtain h where h: "UnicodeEscape c = 0x5C # 0x75 # h" and d: "drop 2 (UnicodeEscape c) = h"
    by (simp add: UnicodeEscape_def Let_def)
  from hex4_UnicodeEscape [of c cs] d have "hex4 (h @ cs) = Some (c, cs)"
    by simp
  with h show ?thesis
    by simp
qed

lemma surrogate_plain:
  "is_lead c \<or> is_trail c \<Longrightarrow> c \<noteq> 0x22 \<and> c \<noteq> 0x5C \<and> \<not> c < 0x20"
  by (auto simp: is_lead_def is_trail_def word_le_nat_alt word_less_nat_alt)

declare lex_string.simps [simp del]

lemma put_Some: "put c (Some (s, r)) = Some (c # s, r)"
  by (simp add: put_def)

lemma quote_units_table:
  "quote_units (0x08 # cs) = [0x5C, 0x62] @ quote_units cs"
  "quote_units (0x09 # cs) = [0x5C, 0x74] @ quote_units cs"
  "quote_units (0x0A # cs) = [0x5C, 0x6E] @ quote_units cs"
  "quote_units (0x0C # cs) = [0x5C, 0x66] @ quote_units cs"
  "quote_units (0x0D # cs) = [0x5C, 0x72] @ quote_units cs"
  "quote_units (0x22 # cs) = [0x5C, 0x22] @ quote_units cs"
  "quote_units (0x5C # cs) = [0x5C, 0x5C] @ quote_units cs"
  by simp_all

definition in_table :: "16 word \<Rightarrow> bool" where
  "in_table c = (c = 0x08 \<or> c = 0x09 \<or> c = 0x0A \<or> c = 0x0C \<or> c = 0x0D \<or> c = 0x22 \<or> c = 0x5C)"

lemma quote_units_control:
  "\<not> in_table c \<Longrightarrow> c < 0x20 \<Longrightarrow> quote_units (c # cs) = UnicodeEscape c @ quote_units cs"
  by (simp add: in_table_def)

lemma quote_units_pair:
  "is_lead c \<Longrightarrow> is_trail d \<Longrightarrow> quote_units (c # d # ds) = c # d # quote_units ds"
  using surrogate_plain [of c] by (auto simp: is_lead_def)

lemma quote_units_lone_lead:
  "is_lead c \<Longrightarrow> \<not> is_trail d \<Longrightarrow> quote_units (c # d # ds) = UnicodeEscape c @ quote_units (d # ds)"
  using surrogate_plain [of c] by (auto simp: is_lead_def)

lemma quote_units_last_lead:
  "is_lead c \<Longrightarrow> quote_units [c] = UnicodeEscape c"
  using surrogate_plain [of c] by (auto simp: is_lead_def)

lemma quote_units_trail:
  "is_trail c \<Longrightarrow> quote_units (c # cs) = UnicodeEscape c @ quote_units cs"
  using surrogate_plain [of c] by (auto simp: is_lead_def is_trail_def word_le_nat_alt)

lemma quote_units_plain:
  "\<not> in_table c \<Longrightarrow> \<not> c < 0x20 \<Longrightarrow> \<not> is_lead c \<Longrightarrow> \<not> is_trail c \<Longrightarrow>
   quote_units (c # cs) = c # quote_units cs"
  by (simp add: in_table_def)

declare quote_units.simps(2) [simp del]

lemma lex_string_quote_units:
  "lex_string (quote_units s @ 0x22 # rest) = Some (s, rest)"
proof (induction s rule: length_induct)
  case (1 s)
  have IH: "\<And>ys. length ys < length s \<Longrightarrow> lex_string (quote_units ys @ 0x22 # rest) = Some (ys, rest)"
    using 1 by blast
  show ?case
  proof (cases s)
    case Nil
    then show ?thesis
      by (simp add: lex_string_close)
  next
    case (Cons c cs)
    from Cons have cs: "lex_string (quote_units cs @ 0x22 # rest) = Some (cs, rest)"
      by (simp add: IH)
    show ?thesis
    proof (cases "in_table c")
      case True
      then show ?thesis
        unfolding in_table_def Cons
        by (elim disjE) (simp_all add: quote_units_table lex_string_escapes cs put_Some)
    next
      case tab: False
      then have nq: "c \<noteq> 0x22" "c \<noteq> 0x5C"
        by (simp_all add: in_table_def)
      show ?thesis
      proof (cases "c < 0x20")
        case True
        with tab show ?thesis
          by (simp add: Cons quote_units_control lex_string_UnicodeEscape cs put_Some)
      next
        case ctl: False
        show ?thesis
        proof (cases "is_lead c")
          case lead: True
          show ?thesis
          proof (cases cs)
            case Nil
            with lead show ?thesis
              by (simp add: Cons quote_units_last_lead lex_string_UnicodeEscape lex_string_close put_Some)
          next
            case ds: (Cons d ds)
            show ?thesis
            proof (cases "is_trail d")
              case True
              have "lex_string (quote_units ds @ 0x22 # rest) = Some (ds, rest)"
                by (rule IH) (simp add: Cons ds)
              with True lead nq ctl surrogate_plain [of d] show ?thesis
                by (simp add: Cons ds quote_units_pair lex_string_plain put_Some)
            next
              case False
              with lead cs show ?thesis
                by (simp add: Cons ds quote_units_lone_lead lex_string_UnicodeEscape put_Some)
            qed
          qed
        next
          case nl: False
          show ?thesis
          proof (cases "is_trail c")
            case True
            then show ?thesis
              by (simp add: Cons quote_units_trail lex_string_UnicodeEscape cs put_Some)
          next
            case False
            with tab ctl nl nq show ?thesis
              by (simp add: Cons quote_units_plain lex_string_plain cs put_Some)
          qed
        qed
      qed
    qed
  qed
qed

subsection \<open>Numbers\<close>

lemma unat_small: "n < 65536 \<Longrightarrow> unat (of_nat n :: 16 word) = n"
  by (simp add: unat_of_nat)

lemma unat_digit: "m < 10 \<Longrightarrow> unat (of_nat (48 + m) :: 16 word) = 48 + m"
  by (rule unat_small) simp

lemma is_digit_digit: "m < 10 \<Longrightarrow> is_digit (of_nat (48 + m))"
  unfolding is_digit_def word_le_nat_alt by (simp only: unat_digit) simp

lemma dec_digits: "list_all is_digit (dec n)"
proof (induction n rule: dec.induct)
  case (1 n)
  show ?case
  proof (cases "n < 10")
    case True
    then show ?thesis
      by (subst dec.simps) (simp add: is_digit_digit del: of_nat_add)
  next
    case False
    with 1 show ?thesis
      by (subst dec.simps) (simp add: is_digit_digit del: of_nat_add)
  qed
qed

lemma dec_nonempty: "dec n \<noteq> []"
  by (subst dec.simps) simp

lemma digits_value_snoc: "digits_value (xs @ [d]) = 10 * digits_value xs + (unat d - 48)"
  by (simp add: digits_value_def)

lemma digits_value_dec: "digits_value (dec n) = n"
proof (induction n rule: dec.induct)
  case (1 n)
  show ?case
  proof (cases "n < 10")
    case True
    then show ?thesis
      by (subst dec.simps) (simp add: digits_value_def unat_digit del: of_nat_add)
  next
    case False
    with 1 show ?thesis
      by (subst dec.simps) (simp add: digits_value_snoc unat_digit del: of_nat_add)
  qed
qed

lemma dec_single: "n < 10 \<Longrightarrow> dec n = [of_nat (48 + n)]"
  by (subst dec.simps) simp

lemma dec_long: "\<not> n < 10 \<Longrightarrow> dec n = dec (n div 10) @ [of_nat (48 + n mod 10)]"
  by (subst dec.simps) simp

lemma dec_no_leading_zero: "0 < n \<Longrightarrow> take 1 (dec n) \<noteq> [0x30]"
proof (induction n rule: dec.induct)
  case (1 n)
  show ?case
  proof (cases "n < 10")
    case True
    have "unat (of_nat (48 + n) :: 16 word) \<noteq> unat (0x30 :: 16 word)"
      using True "1.prems" by (simp add: unat_digit del: of_nat_add)
    then have "(of_nat (48 + n) :: 16 word) \<noteq> 0x30"
      by metis
    with True show ?thesis
      by (simp add: dec_single)
  next
    case False
    then have "0 < n div 10"
      by simp
    with 1 False have h: "take 1 (dec (n div 10)) \<noteq> [0x30]"
      by simp
    obtain a as where d: "dec (n div 10) = a # as"
      using dec_nonempty [of "n div 10"] by (cases "dec (n div 10)") auto
    have "dec n = a # as @ [of_nat (48 + n mod 10)]"
      unfolding dec_long [OF False] d by simp
    then have "take 1 (dec n) = [a]"
      by simp
    moreover from h d have "[a] \<noteq> [0x30]"
      by simp
    ultimately show ?thesis
      by simp
  qed
qed

lemma dec_length: "1 < length (dec n) \<Longrightarrow> 0 < n"
  by (cases "n < 10") (auto simp: dec_single)

definition num_end :: "jstring \<Rightarrow> bool" where
  "num_end rest = (case rest of [] \<Rightarrow> True | c # _ \<Rightarrow> c = 0x2C \<or> c = 0x5D \<or> c = 0x7D)"

lemma num_end_not_digit: "num_end (c # cs) \<Longrightarrow> \<not> is_digit c"
  by (auto simp: num_end_def is_digit_def)

lemma takeWhile_dec: "num_end rest \<Longrightarrow> takeWhile is_digit (dec n @ rest) = dec n"
  using dec_digits [of n]
  by (cases rest) (auto simp: list_all_iff takeWhile_append2 dest: num_end_not_digit)

lemma dropWhile_dec: "num_end rest \<Longrightarrow> dropWhile is_digit (dec n @ rest) = rest"
  using dec_digits [of n]
  by (cases rest) (auto simp: list_all_iff dropWhile_append2 dest: num_end_not_digit)

lemma lex_number_dec:
  assumes "num_end rest" and "n < 2 ^ 53" and "neg \<longrightarrow> 0 < n"
  shows "lex_number neg (dec n @ rest) = Inr (if neg then - int n else int n, rest)"
proof -
  have a: "\<not> (1 < length (dec n) \<and> take 1 (dec n) = [0x30])"
    using dec_length dec_no_leading_zero by blast
  have b: "\<not> (take 1 rest = [0x2E] \<or> take 1 rest = [0x65] \<or> take 1 rest = [0x45])"
    using assms(1) by (cases rest) (auto simp: num_end_def)
  show ?thesis
    using a b assms(2,3)
    by (simp add: lex_number_def Let_def takeWhile_dec dropWhile_dec assms(1) dec_nonempty
        digits_value_dec)
qed

subsection \<open>The tokens of a text\<close>

lemma lex_punct:
  "tokenize (0x7B # cs) = tok TLBrace (tokenize cs)"
  "tokenize (0x7D # cs) = tok TRBrace (tokenize cs)"
  "tokenize (0x5B # cs) = tok TLBracket (tokenize cs)"
  "tokenize (0x5D # cs) = tok TRBracket (tokenize cs)"
  "tokenize (0x3A # cs) = tok TColon (tokenize cs)"
  "tokenize (0x2C # cs) = tok TComma (tokenize cs)"
  by (simp_all add: is_ws_def)

lemma lex_quote:
  "tokenize (0x22 # cs) =
     (case lex_string cs of None \<Rightarrow> Inl SyntaxError | Some (s, r) \<Rightarrow> tok (TStr s) (tokenize r))"
  by (simp add: is_ws_def)

lemma lex_minus:
  "tokenize (0x2D # cs) =
     (case lex_number True cs of Inl e \<Rightarrow> Inl e | Inr (n, r) \<Rightarrow> tok (TNum n) (tokenize r))"
  by (simp add: is_ws_def)

lemma digit_not_special:
  assumes "is_digit c"
  shows "\<not> is_ws c" "c \<noteq> 0x7B" "c \<noteq> 0x7D" "c \<noteq> 0x5B" "c \<noteq> 0x5D" "c \<noteq> 0x3A" "c \<noteq> 0x2C"
    "c \<noteq> 0x22" "c \<noteq> 0x2D"
  using assms by (auto simp: is_digit_def is_ws_def)

lemma lex_digit:
  "is_digit c \<Longrightarrow> tokenize (c # cs) =
     (case lex_number False (c # cs) of Inl e \<Rightarrow> Inl e | Inr (n, r) \<Rightarrow> tok (TNum n) (tokenize r))"
  by (simp add: digit_not_special)

lemma lex_literals:
  "tokenize (0x6E # 0x75 # 0x6C # 0x6C # cs) = tok TNull (tokenize cs)"
  "tokenize (0x74 # 0x72 # 0x75 # 0x65 # cs) = tok TTrue (tokenize cs)"
  "tokenize (0x66 # 0x61 # 0x6C # 0x73 # 0x65 # cs) = tok TFalse (tokenize cs)"
  by (simp_all add: is_ws_def is_digit_def)

declare tokenize.simps(2) [simp del]

definition toks :: "token list \<Rightarrow> error + token list \<Rightarrow> error + token list" where
  "toks ts r = (case r of Inl e \<Rightarrow> Inl e | Inr ts' \<Rightarrow> Inr (ts @ ts'))"

lemma toks_simps:
  "toks [] r = r"
  "toks (t # ts) r = tok t (toks ts r)"
  "toks (a @ b) r = toks a (toks b r)"
  by (simp_all add: toks_def tok_def split: sum.splits)

lemma lex_QuoteJSONString: "tokenize (QuoteJSONString s @ rest) = tok (TStr s) (tokenize rest)"
  by (simp add: QuoteJSONString_def lex_quote lex_string_quote_units)

lemma lex_Number_toString:
  assumes "\<bar>i\<bar> < 2 ^ 53" and "num_end rest"
  shows "tokenize (Number_toString i @ rest) = tok (TNum i) (tokenize rest)"
proof (cases "i < 0")
  case True
  with assms have "lex_number True (dec (nat (- i)) @ rest) = Inr (i, rest)"
    using lex_number_dec [of rest "nat (- i)" True] by simp
  with True show ?thesis
    by (simp add: Number_toString_def lex_minus)
next
  case False
  with assms have n: "lex_number False (dec (nat i) @ rest) = Inr (i, rest)"
    using lex_number_dec [of rest "nat i" False] by simp
  obtain c cs where d: "dec (nat i) = c # cs"
    using dec_nonempty [of "nat i"] by (cases "dec (nat i)") auto
  with dec_digits [of "nat i"] have "is_digit c"
    by simp
  then have "tokenize (c # cs @ rest) =
     (case lex_number False (c # cs @ rest) of Inl e \<Rightarrow> Inl e | Inr (n, r) \<Rightarrow> tok (TNum n) (tokenize r))"
    by (rule lex_digit)
  with n d False show ?thesis
    by (simp add: Number_toString_def)
qed

lemma num_end_simps:
  "num_end []" "num_end (0x2C # cs)" "num_end (0x5D # cs)" "num_end (0x7D # cs)"
  by (simp_all add: num_end_def)

lemma lex_joined:
  assumes "\<And>s ts rest. (s, ts) \<in> set ps \<Longrightarrow> num_end rest \<Longrightarrow> tokenize (s @ rest) = toks ts (tokenize rest)"
    and "num_end rest"
  shows "tokenize (join_comma (map fst ps) @ rest) = toks (sep_tokens (map snd ps)) (tokenize rest)"
  using assms
proof (induction ps rule: induct_list012)
  case 1
  show ?case by (simp add: toks_simps)
next
  case (2 p)
  then show ?case by (cases p) simp
next
  case (3 p q ps)
  obtain s ts where p: "p = (s, ts)" by (cases p)
  have "tokenize (s @ 0x2C # join_comma (map fst (q # ps)) @ rest)
      = toks ts (tokenize (0x2C # join_comma (map fst (q # ps)) @ rest))"
    using "3.prems"(1) [of s ts] p by (simp add: num_end_simps)
  moreover have "tokenize (join_comma (map fst (q # ps)) @ rest)
      = toks (sep_tokens (map snd (q # ps))) (tokenize rest)"
    using "3.IH"(2) "3.prems" by simp
  ultimately show ?case
    by (simp add: p lex_punct toks_simps)
qed

lemma lex_stringify:
  "wf_json v \<Longrightarrow> num_end rest \<Longrightarrow> tokenize (JSON_stringify v @ rest) = toks (tokens v) (tokenize rest)"
proof (induction v arbitrary: rest)
  case JNull
  show ?case by (simp add: lex_literals toks_simps)
next
  case (JBool b)
  show ?case by (simp add: lex_literals toks_simps)
next
  case (JNum n)
  then show ?case by (simp add: lex_Number_toString toks_simps)
next
  case (JStr s)
  show ?case by (simp add: lex_QuoteJSONString toks_simps)
next
  case (JArr vs)
  define ps where "ps = map (\<lambda>v. (JSON_stringify v, tokens v)) vs"
  have 1: "map fst ps = map JSON_stringify vs" and 2: "map snd ps = map tokens vs"
    by (simp_all add: ps_def comp_def)
  have h: "\<And>s ts r. (s, ts) \<in> set ps \<Longrightarrow> num_end r \<Longrightarrow> tokenize (s @ r) = toks ts (tokenize r)"
    using JArr by (auto simp: ps_def list_all_iff)
  have "tokenize (join_comma (map fst ps) @ 0x5D # rest) = toks (sep_tokens (map snd ps)) (tokenize (0x5D # rest))"
    by (rule lex_joined) (simp_all add: h num_end_simps)
  then show ?case
    by (simp add: 1 2 lex_punct toks_simps)
next
  case (JObj kvs)
  define ps where
    "ps = map (\<lambda>(k, v). (QuoteJSONString k @ 0x3A # JSON_stringify v, TStr k # TColon # tokens v)) kvs"
  have 1: "map fst ps = map (\<lambda>(k, v). QuoteJSONString k @ 0x3A # JSON_stringify v) kvs"
    and 2: "map snd ps = map (\<lambda>(k, v). TStr k # TColon # tokens v) kvs"
    by (simp_all add: ps_def comp_def case_prod_beta)
  have h: "\<And>s ts r. (s, ts) \<in> set ps \<Longrightarrow> num_end r \<Longrightarrow> tokenize (s @ r) = toks ts (tokenize r)"
  proof -
    fix s ts r
    assume "(s, ts) \<in> set ps" and r: "num_end r"
    then obtain k v where kv: "(k, v) \<in> set kvs"
      and s: "s = QuoteJSONString k @ 0x3A # JSON_stringify v"
      and ts: "ts = TStr k # TColon # tokens v"
      by (auto simp: ps_def)
    from kv JObj.prems(1) have "wf_json v"
      by (auto simp: list_all_iff)
    with JObj.IH [of "(k, v)" v r] kv r have "tokenize (JSON_stringify v @ r) = toks (tokens v) (tokenize r)"
      by simp
    then show "tokenize (s @ r) = toks ts (tokenize r)"
      by (simp add: s ts lex_QuoteJSONString lex_punct toks_simps)
  qed
  have "tokenize (join_comma (map fst ps) @ 0x7D # rest) = toks (sep_tokens (map snd ps)) (tokenize (0x7D # rest))"
    by (rule lex_joined) (simp_all add: h num_end_simps)
  then show ?case
    by (simp add: 1 2 lex_punct toks_simps)
qed

subsection \<open>The value of the tokens\<close>

lemma insert_index_last:
  "\<forall>q \<in> set qs. \<exists>m. array_index (fst q) = Some m \<and> m \<le> n \<Longrightarrow> insert_index n p qs = qs @ [p]"
  by (induction qs) auto

lemma obj_define_append:
  assumes "wf_props (kvs @ [(k, v)])"
  shows "obj_define k v kvs = kvs @ [(k, v)]"
proof -
  from assms have new: "k \<notin> set (map fst kvs)"
    and before: "\<forall>x \<in> set (map fst kvs). key_before x k"
    by (auto simp: wf_props_def sorted_wrt_append)
  show ?thesis
  proof (cases "array_index k")
    case None
    with new show ?thesis
      by (simp add: obj_define_def)
  next
    case (Some n)
    with before have "\<forall>q \<in> set kvs. \<exists>m. array_index (fst q) = Some m \<and> m \<le> n"
      by (auto simp: key_before_def split: option.splits)
    then have "insert_index n (k, v) kvs = kvs @ [(k, v)]"
      by (rule insert_index_last)
    with new Some show ?thesis
      by (simp add: obj_define_def)
  qed
qed

lemma wf_props_prefix: "wf_props (xs @ ys) \<Longrightarrow> wf_props xs"
  by (auto simp: wf_props_def sorted_wrt_append)

definition parses :: "json \<Rightarrow> bool" where
  "parses v \<longleftrightarrow>
     (\<forall>st rest. run (tokens v @ rest) (Val, st) = run rest (After v, st)
        \<and> run (tokens v @ rest) (ValOrClose, st) = run rest (After v, st))"

lemma parsesD:
  "parses v \<Longrightarrow> run (tokens v @ rest) (Val, st) = run rest (After v, st)"
  "parses v \<Longrightarrow> run (tokens v @ rest) (ValOrClose, st) = run rest (After v, st)"
  by (simp_all add: parses_def)

lemma run_elems:
  assumes "\<forall>v \<in> set (x # xs). parses v" and "m = Val \<or> m = ValOrClose"
  shows "run (sep_tokens (map tokens (x # xs)) @ TRBracket # rest) (m, InArr els # st)
       = run rest (After (JArr (els @ x # xs)), st)"
  using assms
proof (induction xs arbitrary: x els m)
  case Nil
  then show ?case
    by (auto simp: parsesD)
next
  case (Cons y ys)
  from Cons.prems have x: "parses x"
    by simp
  have "run (sep_tokens (map tokens (y # ys)) @ TRBracket # rest) (Val, InArr (els @ [x]) # st)
       = run rest (After (JArr ((els @ [x]) @ y # ys)), st)"
    using Cons.prems by (intro Cons.IH) simp_all
  with x Cons.prems(2) show ?case
    by (auto simp: parsesD)
qed

lemma run_members:
  assumes "\<forall>(k, v) \<in> set ((k, v) # ms). parses v"
    and "wf_props (acc @ (k, v) # ms)"
    and "m = Key acc \<or> (m = KeyOrClose \<and> acc = [])"
  shows "run (sep_tokens (map (\<lambda>(k, v). TStr k # TColon # tokens v) ((k, v) # ms)) @ TRBrace # rest) (m, st)
       = run rest (After (JObj (acc @ (k, v) # ms)), st)"
  using assms
proof (induction ms arbitrary: k v acc m)
  case Nil
  from Nil.prems(2) have "obj_define k v acc = acc @ [(k, v)]"
    by (rule obj_define_append)
  with Nil.prems(1,3) show ?case
    by (auto simp: parsesD)
next
  case (Cons p ps)
  obtain k' v' where p: "p = (k', v')"
    by (cases p)
  from Cons.prems(2) have "wf_props ((acc @ [(k, v)]) @ p # ps)"
    by simp
  then have "wf_props (acc @ [(k, v)])"
    by (rule wf_props_prefix)
  then have d: "obj_define k v acc = acc @ [(k, v)]"
    by (rule obj_define_append)
  have "run (sep_tokens (map (\<lambda>(k, v). TStr k # TColon # tokens v) ((k', v') # ps)) @ TRBrace # rest)
          (Key (acc @ [(k, v)]), st)
       = run rest (After (JObj ((acc @ [(k, v)]) @ (k', v') # ps)), st)"
    using Cons.prems by (intro Cons.IH) (simp_all add: p)
  with Cons.prems(1,3) d show ?case
    by (auto simp: parsesD p)
qed

lemma parses_all: "wf_json v \<Longrightarrow> parses v"
proof (induction v)
  case JNull
  show ?case by (simp add: parses_def)
next
  case (JBool b)
  show ?case by (simp add: parses_def)
next
  case (JNum n)
  show ?case by (simp add: parses_def)
next
  case (JStr s)
  show ?case by (simp add: parses_def)
next
  case (JArr vs)
  then have all: "\<forall>v \<in> set vs. parses v"
    by (auto simp: list_all_iff)
  show ?case
  proof (cases vs)
    case Nil
    then show ?thesis by (simp add: parses_def)
  next
    case (Cons x xs)
    have "\<And>m rest st. m = Val \<or> m = ValOrClose \<Longrightarrow>
        run (sep_tokens (map tokens (x # xs)) @ TRBracket # rest) (m, InArr [] # st)
      = run rest (After (JArr ([] @ x # xs)), st)"
      using all Cons by (intro run_elems) simp_all
    then show ?thesis
      by (simp add: parses_def Cons)
  qed
next
  case (JObj kvs)
  then have all: "\<forall>(k, v) \<in> set kvs. parses v"
    by (fastforce simp: list_all_iff)
  from JObj.prems have wf: "wf_props kvs"
    by simp
  show ?case
  proof (cases kvs)
    case Nil
    then show ?thesis by (simp add: parses_def)
  next
    case (Cons p ps)
    obtain k v where p: "p = (k, v)"
      by (cases p)
    have "\<And>m rest st. m = Key [] \<or> (m = KeyOrClose \<and> [] = ([] :: (jstring \<times> json) list)) \<Longrightarrow>
        run (sep_tokens (map (\<lambda>(k, v). TStr k # TColon # tokens v) ((k, v) # ps)) @ TRBrace # rest) (m, st)
      = run rest (After (JObj ([] @ (k, v) # ps)), st)"
      using all wf Cons p by (intro run_members) simp_all
    then show ?thesis
      by (simp add: parses_def Cons p)
  qed
qed

theorem JSON_parse_stringify: "wf_json v \<Longrightarrow> JSON_parse (JSON_stringify v) = Inr v"
proof -
  assume wf: "wf_json v"
  then have "tokenize (JSON_stringify v @ []) = toks (tokens v) (tokenize [])"
    by (rule lex_stringify) (rule num_end_simps)
  then have t: "tokenize (JSON_stringify v) = Inr (tokens v)"
    by (simp add: toks_def)
  from wf have "parses v"
    by (rule parses_all)
  then have "run (tokens v @ []) (Val, []) = run [] (After v, [])"
    by (rule parsesD)
  then show ?thesis
    by (simp add: JSON_parse_def t)
qed

section \<open>Objects stay well-formed\<close>

lemma set_insert_index: "set (insert_index n p qs) = insert p (set qs)"
  by (induction qs) (auto split: option.splits)

lemma keys_insert_index: "set (map fst (insert_index n p qs)) = insert (fst p) (set (map fst qs))"
  by (simp add: set_insert_index)

lemma distinct_insert_index:
  "fst p \<notin> set (map fst qs) \<Longrightarrow> distinct (map fst qs) \<Longrightarrow> distinct (map fst (insert_index n p qs))"
proof (induction qs)
  case Nil
  show ?case by simp
next
  case (Cons q qs)
  then have "fst q \<notin> set (map fst (insert_index n p qs))"
    unfolding keys_insert_index by auto
  with Cons show ?case
    by (auto split: option.splits)
qed

lemma key_before_index_other: "array_index a = Some n \<Longrightarrow> array_index b = None \<Longrightarrow> key_before a b"
  by (simp add: key_before_def)

lemma sorted_insert_index:
  assumes "array_index (fst p) = Some n" and "sorted_wrt key_before (map fst qs)"
  shows "sorted_wrt key_before (map fst (insert_index n p qs))"
  using assms(2)
proof (induction qs)
  case Nil
  show ?case by simp
next
  case (Cons q qs)
  show ?case
  proof (cases "array_index (fst q)")
    case None
    with Cons.prems have "\<forall>x \<in> set (map fst qs). array_index x = None"
      by (auto simp: key_before_def)
    with None assms(1) Cons.prems show ?thesis
      by (auto simp: key_before_def)
  next
    case (Some m)
    show ?thesis
    proof (cases "m \<le> n")
      case True
      with Some assms(1) have "key_before (fst q) (fst p)"
        by (simp add: key_before_def)
      with True Some Cons show ?thesis
        by (auto simp: set_insert_index)
    next
      case False
      with Some Cons.prems have "\<forall>x \<in> set (map fst qs). key_before (fst p) x"
        using assms(1) by (auto simp: key_before_def split: option.splits)
      with False Some assms(1) Cons.prems show ?thesis
        by (auto simp: key_before_def)
    qed
  qed
qed

lemma keys_update:
  "map (fst \<circ> (\<lambda>(k', v'). if k' = k then (k', v) else (k', v'))) kvs = map fst kvs"
  by (induction kvs) auto

lemma wf_props_obj_define: "wf_props kvs \<Longrightarrow> wf_props (obj_define k v kvs)"
proof (cases "k \<in> set (map fst kvs)")
  case True
  assume "wf_props kvs"
  with True show ?thesis
    by (simp add: obj_define_def wf_props_def keys_update del: set_map)
next
  case new: False
  assume wf: "wf_props kvs"
  show ?thesis
  proof (cases "array_index k")
    case None
    then have "\<forall>x \<in> set (map fst kvs). key_before x k"
      by (simp add: key_before_def split: option.splits)
    with wf new None show ?thesis
      by (simp add: obj_define_def wf_props_def sorted_wrt_append del: set_map)
  next
    case (Some n)
    with wf new show ?thesis
      by (simp add: obj_define_def wf_props_def distinct_insert_index sorted_insert_index del: set_map)
  qed
qed

lemma values_obj_define:
  assumes "list_all (\<lambda>(k, v). wf_json v) kvs" and "wf_json v"
  shows "list_all (\<lambda>(k, v). wf_json v) (obj_define k v kvs)"
proof -
  have "\<forall>(k', v') \<in> set (obj_define k v kvs). v' = v \<or> (k', v') \<in> set kvs"
    by (auto simp: obj_define_def set_insert_index split: option.splits if_splits)
  with assms show ?thesis
    by (fastforce simp: list_all_iff)
qed

lemma wf_obj_define: "wf_json (JObj kvs) \<Longrightarrow> wf_json v \<Longrightarrow> wf_json (JObj (obj_define k v kvs))"
  by (simp add: wf_props_obj_define values_obj_define)

lemma wf_obj_set: "wf_json (JObj kvs) \<Longrightarrow> wf_json v \<Longrightarrow> wf_json (JObj (obj_set k v kvs))"
  using wf_obj_define [of kvs v k] by (simp add: obj_set_def del: wf_json.simps)

section \<open>What JSON.parse returns is well-formed\<close>












section \<open>The log and the store\<close>


lemma logEntries_addLogEntry:
  "logEntries (addLogEntry timestamp title obj s) = logEntries s @ [entry (label_of timestamp title) obj]"
  by (simp add: addLogEntry_def Let_def)






lemma load_absent: "load None = Inr (JArr [])"
  by (simp add: load_def eval_json)

lemma load_stringify_array:
  assumes "list_all wf_json es"
  shows "load (Some (JSON_stringify (JArr es))) = Inr (JArr es)"
proof -
  from assms have "JSON_parse (JSON_stringify (JArr es)) = Inr (JArr es)"
    by (intro JSON_parse_stringify) simp
  then show ?thesis
    by (simp add: load_def)
qed




section \<open>Initialisation\<close>

lemma get_prop_ok: "e \<noteq> JNull \<Longrightarrow> \<exists>x. get_prop e k = Inr x"
  by (cases e) simp_all

lemma restore_ok:
  "list_all (\<lambda>e. e \<noteq> JNull) es \<Longrightarrow> \<exists>items. restore es acc = Inr items"
proof (induction es arbitrary: acc)
  case Nil
  show ?case by simp
next
  case (Cons e es)
  then have e: "e \<noteq> JNull" and es: "list_all (\<lambda>e. e \<noteq> JNull) es"
    by simp_all
  from e obtain t obj where "get_prop e (js ''title'') = Inr t" and "get_prop e (js ''obj'') = Inr obj"
    using get_prop_ok by blast
  with Cons.IH [OF es] show ?case
    by simp
qed

lemma wf_cookie_entry:
  "cookie_entry acc c = Inr acc' \<Longrightarrow> wf_json (JObj acc) \<Longrightarrow> wf_json (JObj acc')"
  by (auto simp: cookie_entry_def wf_obj_set simp del: wf_json.simps(3)
      split: list.splits if_splits sum.splits)

lemma wf_reduce_cookies:
  "reduce_cookies cs acc = Inr acc' \<Longrightarrow> wf_json (JObj acc) \<Longrightarrow> wf_json (JObj acc')"
proof (induction cs arbitrary: acc)
  case Nil
  then show ?case by simp
next
  case (Cons c cs)
  from Cons.prems(1) obtain mid where m: "cookie_entry acc c = Inr mid" and r: "reduce_cookies cs mid = Inr acc'"
    by (auto split: sum.splits)
  from m Cons.prems(2) have "wf_json (JObj mid)"
    by (rule wf_cookie_entry)
  with r show ?case
    by (rule Cons.IH)
qed

lemma wf_cookies: "cookies text = Inr jar \<Longrightarrow> wf_json jar"
proof -
  assume "cookies text = Inr jar"
  then obtain acc where r: "reduce_cookies (split_on 0x3B text) [] = Inr acc" and j: "jar = JObj acc"
    by (auto simp: cookies_def split: sum.splits)
  have "wf_json (JObj [])"
    by (simp add: wf_props_def)
  with r have "wf_json (JObj acc)"
    by (rule wf_reduce_cookies)
  with j show ?thesis
    by simp
qed



subsection \<open>When the initialisation runs to its end\<close>

lemma get_prop_Inr: "get_prop e k = Inr x \<Longrightarrow> e \<noteq> JNull"
  by (cases e) simp_all

lemma restore_no_null: "restore es acc = Inr items \<Longrightarrow> list_all (\<lambda>e. e \<noteq> JNull) es"
proof (induction es arbitrary: acc)
  case Nil
  show ?case by simp
next
  case (Cons e es)
  from Cons.prems obtain t obj where t: "get_prop e (js ''title'') = Inr t"
    and r: "restore es (acc @ [\<lparr>label = t, detail = obj\<rparr>]) = Inr items"
    by (auto split: sum.splits)
  from t have "e \<noteq> JNull"
    by (rule get_prop_Inr)
  with Cons.IH [OF r] show ?case
    by simp
qed

text \<open>
  The initialisation runs to its end exactly when the load returns an array none of
  whose elements is \<open>null\<close> and every cookie that counts decodes. Otherwise it stops
  with the exception; nothing else in it can raise.
\<close>

theorem initialise_completes_iff:
  "(\<exists>s. initialise w = Inr s)
   \<longleftrightarrow> (\<exists>es jar. load (stored w) = Inr (JArr es) \<and> list_all (\<lambda>e. e \<noteq> JNull) es
                 \<and> cookies (cookie w) = Inr jar)"
proof
  assume "\<exists>s. initialise w = Inr s"
  then obtain s where s: "initialise w = Inr s" ..
  then obtain parsed where l: "load (stored w) = Inr parsed"
    by (auto simp: initialise_def split: sum.splits)
  with s obtain es items where f: "forEach_restore parsed = Inr (es, items)"
    by (auto simp: initialise_def split: sum.splits)
  then have p: "parsed = JArr es" and r: "restore es [] = Inr items"
    by (auto simp: forEach_restore_def split: json.splits sum.splits)
  from s l f obtain jar where c: "cookies (cookie w) = Inr jar"
    by (auto simp: initialise_def Let_def split: sum.splits)
  from r have "list_all (\<lambda>e. e \<noteq> JNull) es"
    by (rule restore_no_null)
  with l p c show "\<exists>es jar. load (stored w) = Inr (JArr es) \<and> list_all (\<lambda>e. e \<noteq> JNull) es
                 \<and> cookies (cookie w) = Inr jar"
    by blast
next
  assume "\<exists>es jar. load (stored w) = Inr (JArr es) \<and> list_all (\<lambda>e. e \<noteq> JNull) es
                 \<and> cookies (cookie w) = Inr jar"
  then obtain es jar where l: "load (stored w) = Inr (JArr es)"
    and n: "list_all (\<lambda>e. e \<noteq> JNull) es" and c: "cookies (cookie w) = Inr jar"
    by blast
  from n obtain items where "restore es [] = Inr items"
    using restore_ok by blast
  with l c show "\<exists>s. initialise w = Inr s"
    by (simp add: initialise_def forEach_restore_def Let_def)
qed

text \<open>
  The initialisation leaves the panel closed, the interception of submissions on,
  the blocking of redirects off and the detail pane empty.
\<close>

theorem initialise_leaves_panel_closed:
  "initialise w = Inr s \<longrightarrow>
     \<not> visible s \<and> display s = js ''none'' \<and> stopSubmit s \<and> \<not> blockRedirects s \<and> mainView s = []"
  by (auto simp: initialise_def addLogEntry_def start_def Let_def split: sum.splits)

theorem initialise_leaves_panel_closed_witness:
  "initialise blank_page = Inr (log_all
       [(js ''12:00:00'', js ''[SESSION]'', JObj []),
        (js ''12:00:00'', js ''[COOKIES]'', JObj []),
        (js ''12:00:00'', js ''[PAGE]'', JObj [(js ''pathname'', JStr (js ''/''))])] (start None))
   \<and> \<not> visible (log_all
       [(js ''12:00:00'', js ''[SESSION]'', JObj []),
        (js ''12:00:00'', js ''[COOKIES]'', JObj []),
        (js ''12:00:00'', js ''[PAGE]'', JObj [(js ''pathname'', JStr (js ''/''))])] (start None))"
proof -
  have i: "initialise blank_page = Inr (log_all
       [(js ''12:00:00'', js ''[SESSION]'', JObj []),
        (js ''12:00:00'', js ''[COOKIES]'', JObj []),
        (js ''12:00:00'', js ''[PAGE]'', JObj [(js ''pathname'', JStr (js ''/''))])] (start None))"
    by (simp add: blank_page_def eval_script eval_json eval_host)
  with initialise_leaves_panel_closed [of blank_page] show ?thesis
    by blast
qed

section \<open>The wrapper of fetch\<close>







section \<open>Visibility\<close>

lemma flex_not_none: "js ''flex'' \<noteq> js ''none''"
  by simp

lemma agree_control_step: "agree (control_step c s)"
  by (cases c) (simp_all add: agree_def DevBox_open_def DevBox_close_def DevBox_toggle_def
      devBoxTab_onclick_def Let_def)

lemma agree_controls: "agree s \<Longrightarrow> agree (controls cs s)"
  by (induction cs arbitrary: s) (simp_all add: agree_control_step)

lemma agree_displayed: "agree s \<Longrightarrow> displayed s = visible s"
  by (simp add: agree_def displayed_def)


lemma toggle_twice_visible: "visible (DevBox_toggle (DevBox_toggle s)) = visible s"
  by (simp add: DevBox_toggle_def Let_def)

lemma toggle_twice_display:
  "agree s \<Longrightarrow> display (DevBox_toggle (DevBox_toggle s)) = display s"
  by (simp add: DevBox_toggle_def Let_def agree_def)

text \<open>
  Claim C6. After every sequence of control operations (open, close, toggle, a click
  on the tab, the keyboard shortcut) applied to a state in which the flag and the
  display agree, as they do when the script starts (\<open>visible = false\<close>,
  \<open>display:none\<close>), the flag is true exactly when the panel is displayed, the display
  is \<open>flex\<close> or \<open>none\<close> according to the flag, and two more calls of toggle give
  back the same flag and the same display.
\<close>

theorem visible_agrees_with_display:
  assumes "\<not> visible s" and "display s = js ''none''"
  shows "displayed (controls cs s) = visible (controls cs s)
    \<and> display (controls cs s) = (if visible (controls cs s) then js ''flex'' else js ''none'')
    \<and> visible (DevBox_toggle (DevBox_toggle (controls cs s))) = visible (controls cs s)
    \<and> display (DevBox_toggle (DevBox_toggle (controls cs s))) = display (controls cs s)"
proof -
  from assms have "agree s"
    by (simp add: agree_def)
  then have a: "agree (controls cs s)"
    by (rule agree_controls)
  from a have "displayed (controls cs s) = visible (controls cs s)"
    by (rule agree_displayed)
  moreover from a
  have "display (controls cs s) = (if visible (controls cs s) then js ''flex'' else js ''none'')"
    by (simp add: agree_def)
  moreover
  have "visible (DevBox_toggle (DevBox_toggle (controls cs s))) = visible (controls cs s)"
    by (rule toggle_twice_visible)
  moreover from a
  have "display (DevBox_toggle (DevBox_toggle (controls cs s))) = display (controls cs s)"
    by (rule toggle_twice_display)
  ultimately show ?thesis
    by blast
qed

theorem visible_agrees_with_display_witness:
  "\<not> visible (start None) \<and> display (start None) = js ''none''
   \<and> displayed (controls [COpen, CTabClick, CToggle, CShortcut, CClose, CToggle] (start None))
   \<and> visible (controls [COpen, CTabClick, CToggle, CShortcut, CClose, CToggle] (start None))"
  using visible_agrees_with_display [of "start None" "[COpen, CTabClick, CToggle, CShortcut, CClose, CToggle]"]
  by (simp add: start_def DevBox_open_def DevBox_close_def DevBox_toggle_def devBoxTab_onclick_def
      Let_def)

section \<open>The public API, called twice\<close>

text \<open>
  Claim C7, as the specification states it, asks that every operation of the API,
  called twice, leaves the state one call leaves. It fails for toggle: on the state
  the script starts with, one call opens the panel and the second closes it again.
\<close>

theorem toggle_not_idempotent:
  "call Toggle (call Toggle (start None)) \<noteq> call Toggle (start None)"
  by (simp add: DevBox_toggle_def start_def Let_def)

text \<open>
  Claim C7, amended. Each of open, close, isOpen, clear and setBlockRedirects
  (with the same argument), called twice in succession, leaves the state one call
  leaves, and isOpen returns the same answer; after open the panel is visible, once
  and twice. Toggle flips the visibility at each call, so two calls give back the
  visibility there was.
\<close>

theorem api_twice:
  "call Open (call Open s) = call Open s
   \<and> call Close (call Close s) = call Close s
   \<and> call IsOpen (call IsOpen s) = call IsOpen s
   \<and> DevBox_isOpen (call IsOpen s) = DevBox_isOpen s
   \<and> call Clear (call Clear s) = call Clear s
   \<and> call (SetBlockRedirects val) (call (SetBlockRedirects val) s) = call (SetBlockRedirects val) s
   \<and> visible (call Open s) \<and> visible (call Open (call Open s))
   \<and> visible (call Toggle s) = (\<not> visible s)
   \<and> visible (call Toggle (call Toggle s)) = visible s"
  by (simp add: DevBox_open_def DevBox_close_def DevBox_clear_def DevBox_setBlockRedirects_def
      DevBox_toggle_def DevBox_isOpen_def Let_def)

section \<open>Clearing the log\<close>

text \<open>
  Claim C2 asks of both clear operations that they empty the sequence in memory.
  \<open>DevBox.clear\<close> does; the handler of the Clear Logs button does not assign
  \<open>logEntries\<close>: after a click the sequence in memory is what it was, and the next
  call of \<open>addLogEntry\<close> writes all of it to the store again.
\<close>

theorem clearBtn_onclick_keeps_logEntries:
  "logEntries (clearBtn_onclick s) = logEntries s
   \<and> storage (addLogEntry timestamp title obj (clearBtn_onclick s))
       = Some (JSON_stringify (JArr (logEntries s @ [entry (label_of timestamp title) obj])))"
  by (simp add: clearBtn_onclick_def addLogEntry_def Let_def)

text \<open>
  What the two clear operations do: \<open>DevBox.clear\<close> empties the sequence in memory,
  removes the key and empties both panes, so that the store and the memory agree and
  the next load returns the empty sequence; the handler of the button removes the key
  and empties both panes.
\<close>

theorem DevBox_clear_empties_all:
  "logEntries (DevBox_clear s) = [] \<and> storage (DevBox_clear s) = None
   \<and> sidebar (DevBox_clear s) = [] \<and> mainView (DevBox_clear s) = []
   \<and> in_sync (DevBox_clear s)
   \<and> load (storage (DevBox_clear s)) = Inr (JArr [])
   \<and> storage (clearBtn_onclick s) = None \<and> sidebar (clearBtn_onclick s) = []
   \<and> mainView (clearBtn_onclick s) = []"
  by (simp add: DevBox_clear_def clearBtn_onclick_def in_sync_def load_absent)

section \<open>The load\<close>

text \<open>
  Claim C1 asks that the load returns an empty sequence, and raises nothing, when
  the stored value is malformed. \<open>JSON.parse\<close> is called with no handler around it:
  on the stored text \<open>{\<close> it raises SyntaxError and the script ends there; on the
  stored text \<open>{}\<close> the load returns an object, and the call of \<open>forEach\<close> on it
  raises TypeError.
\<close>

theorem load_malformed_raises:
  "load (Some (js ''{'')) = Inl SyntaxError
   \<and> initialise (blank_page\<lparr>stored := Some (js ''{'')\<rparr>) = Inl SyntaxError
   \<and> initialise (blank_page\<lparr>stored := Some (js ''{}'')\<rparr>) = Inl TypeError"
  by (simp add: blank_page_def eval_script eval_json)

text \<open>
  What the load does return: the empty sequence when the key is absent or holds the
  empty string, and the sequence itself when the key holds the serialisation of a
  sequence of well-formed values, which is all \<open>addLogEntry\<close> ever writes.
\<close>

theorem load_reads_what_was_stored:
  "load None = Inr (JArr []) \<and> load (Some []) = Inr (JArr [])
   \<and> (list_all wf_json es \<longrightarrow> load (Some (JSON_stringify (JArr es))) = Inr (JArr es))"
  using load_stringify_array [of es] by (simp add: load_def eval_json del: JSON_stringify.simps)

theorem load_reads_what_was_stored_witness:
  "list_all wf_json [entry (js ''[9:00:00] [PAGE]'') (JObj []), JNum 5]
   \<and> load (Some (JSON_stringify (JArr [entry (js ''[9:00:00] [PAGE]'') (JObj []), JNum 5])))
       = Inr (JArr [entry (js ''[9:00:00] [PAGE]'') (JObj []), JNum 5])"
proof -
  have w: "list_all wf_json [entry (js ''[9:00:00] [PAGE]'') (JObj []), JNum 5]"
    by (simp add: entry_def wf_props_def key_before_def array_index_def is_digit_def)
  with load_reads_what_was_stored [of "[entry (js ''[9:00:00] [PAGE]'') (JObj []), JNum 5]"]
  show ?thesis
    by blast
qed

section \<open>The fields of a form\<close>

text \<open>
  Claim C3 asks that the fields of the form are extracted into a mapping. A field
  named \<open>__proto__\<close> is not: the assignment \<open>formData[k] = v\<close> with that key calls
  the setter the object inherits and creates no property, so the field is missing
  from the payload.
\<close>

theorem formData_drops_proto:
  "formData [(js ''name'', js ''a''), (js ''__proto__'', js ''x'')] = [(js ''name'', JStr (js ''a''))]"
  by (simp add: eval_script eval_json)

subsection \<open>The fields that are copied\<close>

lemma map_of_update_same:
  "k \<in> set (map fst kvs) \<Longrightarrow>
   map_of (map (\<lambda>(a, b). if a = k then (a, v) else (a, b)) kvs) k = Some v"
  by (induction kvs) auto

lemma map_of_update_other:
  "x \<noteq> k \<Longrightarrow>
   map_of (map (\<lambda>(a, b). if a = k then (a, v) else (a, b)) kvs) x = map_of kvs x"
  by (induction kvs) auto

lemma map_of_insert_index_same:
  "k \<notin> set (map fst qs) \<Longrightarrow> map_of (insert_index n (k, v) qs) k = Some v"
  by (induction qs) (auto split: option.splits)

lemma map_of_insert_index_other:
  "x \<noteq> k \<Longrightarrow> map_of (insert_index n (k, v) qs) x = map_of qs x"
  by (induction qs) (auto split: option.splits)

lemma map_of_obj_define_same: "map_of (obj_define k v kvs) k = Some v"
proof (cases "k \<in> set (map fst kvs)")
  case True
  then show ?thesis
    by (simp add: obj_define_def map_of_update_same del: set_map)
next
  case False
  then have "map_of kvs k = None"
    by (simp add: map_of_eq_None_iff)
  with False show ?thesis
    by (simp add: obj_define_def map_of_insert_index_same map_of_append map_add_def
        del: set_map split: option.splits)
qed

lemma map_of_obj_define_other: "x \<noteq> k \<Longrightarrow> map_of (obj_define k v kvs) x = map_of kvs x"
  by (simp add: obj_define_def map_of_update_other map_of_insert_index_other map_of_append
      map_add_def del: set_map split: option.splits)

lemma map_of_obj_define:
  "map_of (obj_define k v kvs) x = (if x = k then Some v else map_of kvs x)"
  by (simp add: map_of_obj_define_same map_of_obj_define_other)

lemma map_of_obj_set:
  "map_of (obj_set k v kvs) x
     = (if x = k \<and> k \<noteq> js ''__proto__'' then Some v else map_of kvs x)"
  by (simp add: obj_set_def map_of_obj_define)

lemma formData_snoc: "formData (fd @ [(k, v)]) = obj_set k (JStr v) (formData fd)"
  by (simp add: formData_def)

lemma map_of_formData:
  "map_of (formData fd) k
     = (if k = js ''__proto__'' then None else map_option JStr (map_of (rev fd) k))"
proof (induction fd rule: rev_induct)
  case Nil
  show ?case by (simp add: formData_def)
next
  case (snoc p fd)
  obtain a b where p: "p = (a, b)" by (cases p)
  show ?case
    unfolding p formData_snoc map_of_obj_set using snoc by auto
qed

lemma wf_formData: "wf_json (JObj (formData fd))"
proof (induction fd rule: rev_induct)
  case Nil
  show ?case by (simp add: formData_def wf_props_def)
next
  case (snoc p fd)
  obtain a b where p: "p = (a, b)" by (cases p)
  from snoc show ?case
    unfolding p formData_snoc by (intro wf_obj_set) simp_all
qed

text \<open>
  The listener on every other field name. A target that is no form, or a submission
  while \<open>stopSubmit\<close> is false, changes nothing and prevents nothing. Otherwise the
  default is prevented and one entry is appended, titled \<open>[FORM SUBMIT] \<close> followed
  by the action, or by the path when the action is the empty string; its payload
  holds each field name once, with the value of the last field of that name.
\<close>

theorem submit_listener_logs_fields:
  "submit_listener timestamp path OtherTarget s = (s, False)
   \<and> (\<not> stopSubmit s \<longrightarrow> submit_listener timestamp path (HTMLFormElement action fd) s = (s, False))
   \<and> (stopSubmit s \<longrightarrow>
        submit_listener timestamp path (HTMLFormElement action fd) s
          = (addLogEntry timestamp (js ''[FORM SUBMIT] '' @ (if action = [] then path else action))
               (JObj (formData fd)) s,
             True)
        \<and> logEntries (fst (submit_listener timestamp path (HTMLFormElement action fd) s))
          = logEntries s
            @ [entry (label_of timestamp (js ''[FORM SUBMIT] '' @ (if action = [] then path else action)))
                 (JObj (formData fd))])
   \<and> (k \<noteq> js ''__proto__'' \<longrightarrow> map_of (formData fd) k = map_option JStr (map_of (rev fd) k))
   \<and> distinct (map fst (formData fd))"
proof -
  have "distinct (map fst (formData fd))"
    using wf_formData [of fd] by (simp add: wf_props_def)
  then show ?thesis
    by (simp add: submit_listener_def map_of_formData logEntries_addLogEntry)
qed

theorem submit_listener_logs_fields_witness:
  "stopSubmit (start None)
   \<and> submit_listener (js ''9:00:01'') (js ''/p'')
        (HTMLFormElement (js ''/a'') [(js ''name'', js ''a''), (js ''email'', js ''b@x.com''), (js ''name'', js ''c'')])
        (start None)
      = (addLogEntry (js ''9:00:01'') (js ''[FORM SUBMIT] /a'')
           (JObj [(js ''name'', JStr (js ''c'')), (js ''email'', JStr (js ''b@x.com''))]) (start None),
         True)
   \<and> map_of (formData [(js ''name'', js ''a''), (js ''email'', js ''b@x.com''), (js ''name'', js ''c'')]) (js ''name'')
      = Some (JStr (js ''c''))"
proof -
  have 1: "stopSubmit (start None)"
    by (simp add: start_def)
  have 2: "js ''name'' \<noteq> js ''__proto__''"
    by simp
  have 3: "formData [(js ''name'', js ''a''), (js ''email'', js ''b@x.com''), (js ''name'', js ''c'')]
      = [(js ''name'', JStr (js ''c'')), (js ''email'', JStr (js ''b@x.com''))]"
    by (simp add: eval_script eval_json)
  note t = submit_listener_logs_fields [where s = "start None" and k = "js ''name''"
      and timestamp = "js ''9:00:01''" and path = "js ''/p''" and action = "js ''/a''"
      and fd = "[(js ''name'', js ''a''), (js ''email'', js ''b@x.com''), (js ''name'', js ''c'')]"]
  from t 1 have "submit_listener (js ''9:00:01'') (js ''/p'')
        (HTMLFormElement (js ''/a'') [(js ''name'', js ''a''), (js ''email'', js ''b@x.com''), (js ''name'', js ''c'')])
        (start None)
      = (addLogEntry (js ''9:00:01'') (js ''[FORM SUBMIT] /a'')
           (JObj [(js ''name'', JStr (js ''c'')), (js ''email'', JStr (js ''b@x.com''))]) (start None),
         True)"
    unfolding 3 by simp
  moreover from t 2
  have "map_of (formData [(js ''name'', js ''a''), (js ''email'', js ''b@x.com''), (js ''name'', js ''c'')]) (js ''name'')
      = Some (JStr (js ''c''))"
    by simp
  ultimately show ?thesis
    using 1 by blast
qed

section \<open>The cookies\<close>

text \<open>
  Claim C8 asks for a mapping from key to decoded value for every cookie string. On
  the cookie string \<open>a=%\<close> \<open>decodeURIComponent\<close> raises URIError, which nothing
  catches; and \<open>c.split("=")\<close> cuts a value at its first \<open>=\<close>, so the cookie
  \<open>t=abc==\<close> is recorded with the value \<open>abc\<close>.
\<close>

theorem cookies_malformed:
  "cookies (js ''a=%'') = Inl URIError
   \<and> cookies (js ''t=abc=='') = Inr (JObj [(js ''t'', JStr (js ''abc''))])"
  by (simp add: eval_script eval_json eval_host)

subsection \<open>The cookie jar\<close>

lemma cookie_entry_counted:
  "cookie_entry acc c =
     (case counted c of
        [] \<Rightarrow> Inr acc
      | (k, v) # _ \<Rightarrow>
          (case decodeURIComponent v of
             Inl err \<Rightarrow> Inl err
           | Inr d \<Rightarrow> Inr (obj_set k (JStr d) acc)))"
  by (simp add: cookie_entry_def counted_def split: list.splits)

lemma counted_cases: "counted c = [] \<or> (\<exists>k v. counted c = [(k, v)])"
  by (simp add: counted_def split: list.splits)

lemma reduce_cookies_lookup:
  assumes "reduce_cookies cs acc = Inr acc'" and "x \<noteq> js ''__proto__''"
  shows "map_of acc' x =
     (case map_of (rev (concat (map counted cs))) x of
        None \<Rightarrow> map_of acc x
      | Some v \<Rightarrow> decoded v)"
  using assms(1)
proof (induction cs arbitrary: acc)
  case Nil
  then show ?case by simp
next
  case (Cons c cs)
  from Cons.prems obtain mid where m: "cookie_entry acc c = Inr mid" and r: "reduce_cookies cs mid = Inr acc'"
    by (auto split: sum.splits)
  note IH = Cons.IH [OF r]
  from counted_cases [of c] show ?case
  proof
    assume e: "counted c = []"
    with m have "mid = acc"
      by (simp add: cookie_entry_counted)
    with IH e show ?thesis
      by (simp split: option.splits)
  next
    assume "\<exists>k v. counted c = [(k, v)]"
    then obtain k v where e: "counted c = [(k, v)]"
      by blast
    with m obtain d where d: "decodeURIComponent v = Inr d" and mid: "mid = obj_set k (JStr d) acc"
      by (auto simp: cookie_entry_counted split: sum.splits)
    from d have dv: "decoded v = Some (JStr d)"
      by (simp add: decoded_def)
    have "map_of mid x = (if x = k then Some (JStr d) else map_of acc x)"
      using assms(2) by (auto simp: mid map_of_obj_set)
    with IH e dv show ?thesis
      by (auto simp: map_of_append map_add_def split: option.splits)
  qed
qed

lemma reduce_cookies_proto:
  "reduce_cookies cs acc = Inr acc' \<Longrightarrow> map_of acc' (js ''__proto__'') = map_of acc (js ''__proto__'')"
proof (induction cs arbitrary: acc)
  case Nil
  then show ?case by simp
next
  case (Cons c cs)
  from Cons.prems obtain mid where m: "cookie_entry acc c = Inr mid" and r: "reduce_cookies cs mid = Inr acc'"
    by (auto split: sum.splits)
  from m have "map_of mid (js ''__proto__'') = map_of acc (js ''__proto__'')"
    by (auto simp: cookie_entry_counted map_of_obj_set split: list.splits sum.splits)
  with Cons.IH [OF r] show ?case
    by simp
qed

lemma reduce_cookies_total:
  "list_all (\<lambda>(k, v). decoded v \<noteq> None) (concat (map counted cs)) \<Longrightarrow> \<exists>acc'. reduce_cookies cs acc = Inr acc'"
proof (induction cs arbitrary: acc)
  case Nil
  show ?case by simp
next
  case (Cons c cs)
  from Cons.prems have here: "list_all (\<lambda>(k, v). decoded v \<noteq> None) (counted c)"
    and rest: "list_all (\<lambda>(k, v). decoded v \<noteq> None) (concat (map counted cs))"
    by simp_all
  have "\<exists>mid. cookie_entry acc c = Inr mid"
  proof (cases "counted c")
    case Nil
    then show ?thesis
      by (simp add: cookie_entry_counted)
  next
    case (Cons p ps)
    obtain k v where p: "p = (k, v)" by (cases p)
    from here Cons p obtain d where "decodeURIComponent v = Inr d"
      by (cases "decodeURIComponent v") (auto simp: decoded_def)
    with Cons p show ?thesis
      by (simp add: cookie_entry_counted)
  qed
  then obtain mid where "cookie_entry acc c = Inr mid"
    by blast
  with Cons.IH [OF rest, of mid] show ?case
    by simp
qed

text \<open>
  What the capture does return. When every cookie that counts has a value that
  decodes, the capture returns a mapping. Whenever it returns one, the keys are
  distinct, \<open>__proto__\<close> is not among them, and every other key maps to the decoded
  value of the last cookie of that key that counts, the value being the text between
  the first and the second \<open>=\<close> of the piece.
\<close>

theorem cookies_last_write_wins:
  "(list_all (\<lambda>(k, v). decoded v \<noteq> None) (cookie_pairs text) \<longrightarrow> (\<exists>jar. cookies text = Inr (JObj jar)))
   \<and> (cookies text = Inr jar \<longrightarrow>
        (\<exists>kvs. jar = JObj kvs \<and> distinct (map fst kvs)
           \<and> map_of kvs (js ''__proto__'') = None
           \<and> (x \<noteq> js ''__proto__'' \<longrightarrow>
                map_of kvs x = (case map_of (rev (cookie_pairs text)) x of
                                  None \<Rightarrow> None
                                | Some v \<Rightarrow> decoded v))))"
proof (intro conjI impI)
  assume "list_all (\<lambda>(k, v). decoded v \<noteq> None) (cookie_pairs text)"
  then obtain acc where "reduce_cookies (split_on 0x3B text) [] = Inr acc"
    unfolding cookie_pairs_def using reduce_cookies_total by blast
  then show "\<exists>jar. cookies text = Inr (JObj jar)"
    by (simp add: cookies_def)
next
  assume c: "cookies text = Inr jar"
  then obtain kvs where r: "reduce_cookies (split_on 0x3B text) [] = Inr kvs" and j: "jar = JObj kvs"
    by (auto simp: cookies_def split: sum.splits)
  from c have "wf_json jar"
    by (rule wf_cookies)
  with j have d: "distinct (map fst kvs)"
    by (simp add: wf_props_def)
  from reduce_cookies_proto [OF r] have p: "map_of kvs (js ''__proto__'') = None"
    by simp
  have "x \<noteq> js ''__proto__'' \<longrightarrow>
     map_of kvs x = (case map_of (rev (cookie_pairs text)) x of None \<Rightarrow> None | Some v \<Rightarrow> decoded v)"
    using reduce_cookies_lookup [OF r, of x] by (auto simp: cookie_pairs_def split: option.splits)
  with j d p show "\<exists>kvs. jar = JObj kvs \<and> distinct (map fst kvs)
           \<and> map_of kvs (js ''__proto__'') = None
           \<and> (x \<noteq> js ''__proto__'' \<longrightarrow>
                map_of kvs x = (case map_of (rev (cookie_pairs text)) x of
                                  None \<Rightarrow> None
                                | Some v \<Rightarrow> decoded v))"
    by blast
qed

theorem cookies_last_write_wins_witness:
  "cookies (js ''a=1; b=x%20y; a=2'') = Inr (JObj [(js ''a'', JStr (js ''2'')), (js ''b'', JStr (js ''x y''))])
   \<and> js ''a'' \<noteq> js ''__proto__''
   \<and> map_of [(js ''a'', JStr (js ''2'')), (js ''b'', JStr (js ''x y''))] (js ''a'')
       = (case map_of (rev (cookie_pairs (js ''a=1; b=x%20y; a=2''))) (js ''a'') of
            None \<Rightarrow> None
          | Some v \<Rightarrow> decoded v)"
proof -
  have c: "cookies (js ''a=1; b=x%20y; a=2'')
      = Inr (JObj [(js ''a'', JStr (js ''2'')), (js ''b'', JStr (js ''x y''))])"
    by (simp add: eval_script eval_json eval_host)
  have n: "js ''a'' \<noteq> js ''__proto__''"
    by simp
  from cookies_last_write_wins [of "js ''a=1; b=x%20y; a=2''"
      "JObj [(js ''a'', JStr (js ''2'')), (js ''b'', JStr (js ''x y''))]" "js ''a''"] c n
  have "map_of [(js ''a'', JStr (js ''2'')), (js ''b'', JStr (js ''x y''))] (js ''a'')
       = (case map_of (rev (cookie_pairs (js ''a=1; b=x%20y; a=2''))) (js ''a'') of
            None \<Rightarrow> None
          | Some v \<Rightarrow> decoded v)"
    by blast
  with c n show ?thesis
    by blast
qed

section \<open>The injected globals\<close>

text \<open>
  Claim C9 asks that each of the four injected globals is read. The script reads
  \<open>window.__DEVBOX_SESSION\<close> only: whatever \<open>__DEVBOX_GET\<close>, \<open>__DEVBOX_POST\<close> and
  \<open>__DEVBOX_FILE\<close> hold, the initialisation does the same.
\<close>

theorem initialise_ignores_injected:
  "initialise (w\<lparr>DEVBOX_GET := g, DEVBOX_POST := p, DEVBOX_FILE := f\<rparr>) = initialise w"
  by (simp add: initialise_def Let_def split: sum.splits prod.splits)

end
